theory Spec2Isabelle
  imports Main "HOL-Library.AList" "HOL-Library.Multiset"
begin

section \<open>The tree map module of dataviva-site\<close>

text \<open>
  A shallow embedding of \<^verbatim>\<open>static/js/modules/tree_map.js\<close>: the resource
  locators built from the page attributes, the row enrichment \<^verbatim>\<open>buildData\<close>,
  the depth selector helper of \<^verbatim>\<open>loadViz\<close> and its text formatting rule.
  Arrays and objects live in an explicit store, so that a write through one
  reference is seen through every other reference to the same array or object.
\<close>

subsection \<open>Values and the store\<close>

text \<open>
  The scalars are the values JSON carries, and \<^verbatim>\<open>undefined\<close>. This module
  uses a number only through its text, as a property key and in a string
  concatenation, and through \<^verbatim>\<open>===\<close>: a number is given by the text that
  \<^verbatim>\<open>ToString\<close> gives it (\<open>123\<close>, \<open>1.5\<close>, \<open>1e+21\<close>), which is the same for two
  numbers exactly when they are equal (JSON has no \<^verbatim>\<open>NaN\<close>).
  A value that is no scalar is a reference to an array or an object of the
  store, or a member that every object inherits from \<^verbatim>\<open>Object.prototype\<close>,
  given by its name.
\<close>

datatype scalar = Undefined | Null | Bool bool | Num string | Str string

type_synonym addr = nat

datatype jsval = Prim scalar | Ref addr | Inherited string

text \<open>
  An object is the list of its own properties in the order they were added
  (the order in which they are enumerated is not modelled), with a flag that
  says whether \<^verbatim>\<open>Object.prototype\<close> is its prototype, as it is for every
  object of a parsed response and every object an object literal makes.
\<close>

datatype cell = Arr "jsval list" | Obj bool "(string \<times> jsval) list"

type_synonym heap = "cell list"

text \<open>
  \<open>TypeError\<close> is the exception of JavaScript, the one a \<^verbatim>\<open>catch\<close> receives.
  \<open>Unmodelled\<close> stops the model where the program goes on in a way that is not
  described here (the text of an array, of an object or of a built-in function,
  a property of a string or of an array other than an element, a change of
  prototype to another object, a reference to nothing); nothing catches it.
\<close>

datatype error = TypeError | Unmodelled

text \<open>
  The names of the members of \<^verbatim>\<open>Object.prototype\<close> (ECMAScript 2015 with its
  annex for browsers), when no script has added to it.
\<close>

definition protoKeys :: "string list" where
  "protoKeys =
     [''constructor'', ''__defineGetter__'', ''__defineSetter__'', ''hasOwnProperty'',
      ''__lookupGetter__'', ''__lookupSetter__'', ''isPrototypeOf'', ''propertyIsEnumerable'',
      ''toString'', ''valueOf'', ''__proto__'', ''toLocaleString'']"

text \<open>\<^verbatim>\<open>ToString\<close>, as a property key and in a string concatenation.\<close>

fun toString :: "scalar \<Rightarrow> string" where
  "toString Undefined = ''undefined''"
| "toString Null = ''null''"
| "toString (Bool b) = (if b then ''true'' else ''false'')"
| "toString (Num t) = t"
| "toString (Str s) = s"

fun toStringV :: "jsval \<Rightarrow> error + string" where
  "toStringV (Prim s) = Inr (toString s)"
| "toStringV (Ref a) = Inl Unmodelled"
| "toStringV (Inherited b) = Inl Unmodelled"

text \<open>A new array or object takes the next address of the store.\<close>

definition alloc :: "heap \<Rightarrow> cell \<Rightarrow> jsval \<times> heap" where
  "alloc h c = (Ref (length h), h @ [c])"

text \<open>
  \<^verbatim>\<open>o[k]\<close> for a string key. Reading a property of \<^verbatim>\<open>undefined\<close> or \<^verbatim>\<open>null\<close>
  throws. An object gives its own property of that name if it has one, else
  the member it inherits under that name, else \<^verbatim>\<open>undefined\<close>. An inherited
  member is a built-in function or \<^verbatim>\<open>Object.prototype\<close> itself: none of them
  has a property whose name begins with \<open>name_\<close>.
\<close>

fun getProp :: "heap \<Rightarrow> jsval \<Rightarrow> string \<Rightarrow> error + jsval" where
  "getProp h (Prim Undefined) k = Inl TypeError"
| "getProp h (Prim Null) k = Inl TypeError"
| "getProp h (Prim s) k = Inl Unmodelled"
| "getProp h (Inherited b) k =
     (if take 5 k = ''name_'' then Inr (Prim Undefined) else Inl Unmodelled)"
| "getProp h (Ref a) k =
     (if a < length h then
        (case h ! a of
           Obj inherits kvs \<Rightarrow>
             (case map_of kvs k of
                Some v \<Rightarrow> Inr v
              | None \<Rightarrow>
                  Inr (if inherits \<and> k \<in> set protoKeys then Inherited k else Prim Undefined))
         | Arr xs \<Rightarrow> Inl Unmodelled)
      else Inl Unmodelled)"

text \<open>
  \<^verbatim>\<open>o[k] = v\<close> for a string key: an existing property keeps its place, a new
  one is added. The one inherited member with a setter is \<^verbatim>\<open>__proto__\<close>: on an
  object that inherits it and has no own property of that name the assignment
  adds no property; it takes the prototype away when the value is \<^verbatim>\<open>null\<close> and
  does nothing for any other scalar.
\<close>

fun setProp :: "heap \<Rightarrow> jsval \<Rightarrow> string \<Rightarrow> jsval \<Rightarrow> error + heap" where
  "setProp h (Prim Undefined) k v = Inl TypeError"
| "setProp h (Prim Null) k v = Inl TypeError"
| "setProp h (Prim s) k v = Inl Unmodelled"
| "setProp h (Inherited b) k v = Inl Unmodelled"
| "setProp h (Ref a) k v =
     (if a < length h then
        (case h ! a of
           Obj inherits kvs \<Rightarrow>
             (if k = ''__proto__'' \<and> inherits \<and> map_of kvs k = None then
                (case v of
                   Prim s \<Rightarrow> Inr (if s = Null then h[a := Obj False kvs] else h)
                 | Ref b \<Rightarrow> Inl Unmodelled
                 | Inherited b \<Rightarrow> Inl Unmodelled)
              else Inr (h[a := Obj inherits (AList.update k v kvs)]))
         | Arr xs \<Rightarrow> Inl Unmodelled)
      else Inl Unmodelled)"

text \<open>\<^verbatim>\<open>a[i]\<close> for an integer index: outside the array it is \<^verbatim>\<open>undefined\<close>.\<close>

fun getIndex :: "heap \<Rightarrow> jsval \<Rightarrow> int \<Rightarrow> error + jsval" where
  "getIndex h (Prim Undefined) i = Inl TypeError"
| "getIndex h (Prim Null) i = Inl TypeError"
| "getIndex h (Prim s) i = Inl Unmodelled"
| "getIndex h (Inherited b) i = Inl Unmodelled"
| "getIndex h (Ref a) i =
     (if a < length h then
        (case h ! a of
           Arr xs \<Rightarrow> Inr (if 0 \<le> i \<and> nat i < length xs then xs ! nat i else Prim Undefined)
         | Obj inherits kvs \<Rightarrow> Inl Unmodelled)
      else Inl Unmodelled)"

text \<open>\<^verbatim>\<open>a[i] = v\<close> for an index inside the array.\<close>

fun setIndex :: "heap \<Rightarrow> jsval \<Rightarrow> nat \<Rightarrow> jsval \<Rightarrow> error + heap" where
  "setIndex h (Prim Undefined) i v = Inl TypeError"
| "setIndex h (Prim Null) i v = Inl TypeError"
| "setIndex h (Prim s) i v = Inl Unmodelled"
| "setIndex h (Inherited b) i v = Inl Unmodelled"
| "setIndex h (Ref a) i v =
     (if a < length h then
        (case h ! a of
           Arr xs \<Rightarrow> (if i < length xs then Inr (h[a := Arr (xs[i := v])]) else Inl Unmodelled)
         | Obj inherits kvs \<Rightarrow> Inl Unmodelled)
      else Inl Unmodelled)"

text \<open>The elements of the array a method of \<^verbatim>\<open>Array.prototype\<close> is called on:
  \<^verbatim>\<open>forEach\<close>, \<^verbatim>\<open>indexOf\<close>, \<^verbatim>\<open>slice\<close>, \<^verbatim>\<open>splice\<close> and \<^verbatim>\<open>push\<close> of anything else
  is no function, and the call throws.\<close>

fun arrayOf :: "heap \<Rightarrow> jsval \<Rightarrow> error + jsval list" where
  "arrayOf h (Prim s) = Inl TypeError"
| "arrayOf h (Inherited b) = Inl TypeError"
| "arrayOf h (Ref a) =
     (if a < length h then
        (case h ! a of Arr xs \<Rightarrow> Inr xs | Obj inherits kvs \<Rightarrow> Inl TypeError)
      else Inl Unmodelled)"

text \<open>\<^verbatim>\<open>indexOf\<close>: the first index holding the element, or \<open>-1\<close>.\<close>

fun indexOf :: "'a list \<Rightarrow> 'a \<Rightarrow> int" where
  "indexOf [] x = - 1"
| "indexOf (y # ys) x =
     (if y = x then 0 else (let r = indexOf ys x in if r < 0 then - 1 else r + 1))"

text \<open>\<^verbatim>\<open>splice(start, deleteCount, ...items)\<close>, the array it leaves: a negative
  start counts from the end, and both bounds are clamped to the array.\<close>

definition splice :: "'a list \<Rightarrow> int \<Rightarrow> int \<Rightarrow> 'a list \<Rightarrow> 'a list" where
  "splice xs start deleteCount items =
     (let len = int (length xs);
          actualStart = (if start < 0 then max (len + start) 0 else min start len);
          actualDeleteCount = min (max deleteCount 0) (len - actualStart)
      in take (nat actualStart) xs @ items @ drop (nat (actualStart + actualDeleteCount)) xs)"

definition spliceH :: "heap \<Rightarrow> jsval \<Rightarrow> int \<Rightarrow> int \<Rightarrow> jsval list \<Rightarrow> error + heap" where
  "spliceH h a start deleteCount items =
     (case arrayOf h a of
        Inl e \<Rightarrow> Inl e
      | Inr xs \<Rightarrow> (case a of Ref p \<Rightarrow> Inr (h[p := Arr (splice xs start deleteCount items)])
                  | Prim s \<Rightarrow> Inl TypeError
                  | Inherited b \<Rightarrow> Inl TypeError))"

definition push :: "heap \<Rightarrow> jsval \<Rightarrow> jsval \<Rightarrow> error + heap" where
  "push h a v =
     (case arrayOf h a of
        Inl e \<Rightarrow> Inl e
      | Inr xs \<Rightarrow> (case a of Ref p \<Rightarrow> Inr (h[p := Arr (xs @ [v])])
                  | Prim s \<Rightarrow> Inl TypeError
                  | Inherited b \<Rightarrow> Inl TypeError))"

subsection \<open>The resource locators\<close>

text \<open>The attributes of the \<^verbatim>\<open>tree_map\<close> element the locators are built from.\<close>

record attrs =
  attr_squares :: string
  attr_group :: string
  attr_dataset :: string
  attr_filters :: string

definition api :: string where
  "api = ''http://api.staging.dataviva.info/''"

definition urls :: "attrs \<Rightarrow> string list" where
  "urls a =
     [api @ ''metadata/'' @ attr_squares a,
      api @ ''metadata/'' @ (if attr_group a = ''section'' then ''product_section'' else attr_group a),
      api @ attr_dataset a @ ''/year/'' @ attr_squares a @ ''/'' @ attr_group a @ ''?'' @ attr_filters a]"

subsection \<open>The text formatting rule\<close>

text \<open>
  The table of localized labels is defined outside this module: it is a
  parameter, a map from a key to its label. \<^verbatim>\<open>text == 'value'\<close> compares with a
  literal that is no numeral, so only the string itself is equal to it.
\<close>

type_synonym dictionary = "string \<Rightarrow> string option"

definition dictGet :: "dictionary \<Rightarrow> string \<Rightarrow> scalar" where
  "dictGet dictionary k = (case dictionary k of None \<Rightarrow> Undefined | Some s \<Rightarrow> Str s)"

text \<open>The two level names the module itself puts into the table, by the language of the page.\<close>

definition withLevels :: "string \<Rightarrow> dictionary \<Rightarrow> dictionary" where
  "withLevels lang dictionary =
     dictionary(''state'' \<mapsto> (if lang = ''en'' then ''State'' else ''Estado''),
                ''municipality'' \<mapsto> (if lang = ''en'' then ''Municipality'' else ''Municipio''))"

fun looseEq :: "scalar \<Rightarrow> string \<Rightarrow> bool" where
  "looseEq (Str s) lit = (s = lit)"
| "looseEq v lit = False"

definition format_text :: "dictionary \<Rightarrow> scalar \<Rightarrow> scalar" where
  "format_text dictionary text =
     (if looseEq text ''value'' \<or> looseEq text ''share''
      then dictGet dictionary (toString text) else text)"

subsection \<open>The depth selector helper\<close>

text \<open>
  \<^verbatim>\<open>depthSelectorHelper(array, element)\<close> copies the array, removes the element at
  \<^verbatim>\<open>indexOf(element)\<close>, puts the element in front and replaces every item by
  the object \<^verbatim>\<open>{[dictionary[item]]: item}\<close>. The result is the value returned, or
  the exception thrown, together with the store the call leaves. The callback
  of \<^verbatim>\<open>forEach\<close> writes to the index it is called for, after the item there has
  been read, so the items visited are those the array has before the loop.
\<close>

definition slice0 :: "heap \<Rightarrow> jsval \<Rightarrow> error + jsval \<times> heap" where
  "slice0 h a = (case arrayOf h a of Inl e \<Rightarrow> Inl e | Inr xs \<Rightarrow> Inr (alloc h (Arr xs)))"

definition indexOfH :: "heap \<Rightarrow> jsval \<Rightarrow> jsval \<Rightarrow> error + int" where
  "indexOfH h a x = (case arrayOf h a of Inl e \<Rightarrow> Inl e | Inr xs \<Rightarrow> Inr (indexOf xs x))"

text \<open>The computed key \<^verbatim>\<open>[dictionary[item]]\<close>: the text of the label, which is
  \<^verbatim>\<open>undefined\<close> for an item the table does not have.\<close>

definition label :: "dictionary \<Rightarrow> string \<Rightarrow> string" where
  "label dictionary key = toString (dictGet dictionary key)"

fun wrapEach :: "dictionary \<Rightarrow> heap \<Rightarrow> jsval \<Rightarrow> nat \<Rightarrow> jsval list \<Rightarrow> error option \<times> heap" where
  "wrapEach dictionary h newArray index [] = (None, h)"
| "wrapEach dictionary h newArray index (item # items) =
     (case toStringV item of
        Inl e \<Rightarrow> (Some e, h)
      | Inr key \<Rightarrow>
         (case alloc h (Obj True [(label dictionary key, item)]) of
            (entry, h1) \<Rightarrow>
              (case setIndex h1 newArray index entry of
                 Inl e \<Rightarrow> (Some e, h1)
               | Inr h2 \<Rightarrow> wrapEach dictionary h2 newArray (Suc index) items)))"

definition depthSelectorHelper ::
  "dictionary \<Rightarrow> heap \<Rightarrow> jsval \<Rightarrow> jsval \<Rightarrow> (error + jsval) \<times> heap" where
  "depthSelectorHelper dictionary h array element =
     (case slice0 h array of
        Inl e \<Rightarrow> (Inl e, h)
      | Inr (newArray, h1) \<Rightarrow>
     (case indexOfH h1 newArray element of
        Inl e \<Rightarrow> (Inl e, h1)
      | Inr i \<Rightarrow>
     (case spliceH h1 newArray i 1 [] of
        Inl e \<Rightarrow> (Inl e, h1)
      | Inr h2 \<Rightarrow>
     (case spliceH h2 newArray 0 0 [element] of
        Inl e \<Rightarrow> (Inl e, h2)
      | Inr h3 \<Rightarrow>
     (case arrayOf h3 newArray of
        Inl e \<Rightarrow> (Inl e, h3)
      | Inr items \<Rightarrow>
     (case wrapEach dictionary h3 newArray 0 items of
        (Some e, h4) \<Rightarrow> (Inl e, h4)
      | (None, h4) \<Rightarrow> (Inr newArray, h4)))))))"

subsection \<open>The enrichment of the rows\<close>

text \<open>
  \<^verbatim>\<open>buildData(responseApi, squaresMetadata, groupMetadata)\<close>. The names
  \<^verbatim>\<open>squares\<close>, \<^verbatim>\<open>group\<close> and \<^verbatim>\<open>lang\<close> of the module are parameters; an attribute
  the page does not have reads as \<^verbatim>\<open>null\<close>, which every use here turns into the
  string \<open>null\<close>, so they are strings. \<^verbatim>\<open>forEach\<close> visits the elements the
  array has when it is called: no callback here writes to the array it runs over.
\<close>

definition getAttrByName :: "heap \<Rightarrow> jsval \<Rightarrow> jsval \<Rightarrow> jsval \<Rightarrow> error + jsval" where
  "getAttrByName h headers item attr =
     (case indexOfH h headers attr of
        Inl e \<Rightarrow> Inl e
      | Inr index \<Rightarrow> getIndex h item index)"

text \<open>\<^verbatim>\<open>headers.forEach(function(header){ dataItem[header] = getAttrByName(item, header); })\<close>\<close>

fun fillItem :: "heap \<Rightarrow> jsval \<Rightarrow> jsval \<Rightarrow> jsval \<Rightarrow> jsval list \<Rightarrow> error option \<times> heap" where
  "fillItem h headers item dataItem [] = (None, h)"
| "fillItem h headers item dataItem (header # rest) =
     (case getAttrByName h headers item header of
        Inl e \<Rightarrow> (Some e, h)
      | Inr v \<Rightarrow>
     (case toStringV header of
        Inl e \<Rightarrow> (Some e, h)
      | Inr key \<Rightarrow>
     (case setProp h dataItem key v of
        Inl e \<Rightarrow> (Some e, h)
      | Inr h1 \<Rightarrow> fillItem h1 headers item dataItem rest)))"

text \<open>\<^verbatim>\<open>responseApi.data.forEach(function(item) { var dataItem = {}; ...; data.push(dataItem); })\<close>\<close>

fun buildItems :: "heap \<Rightarrow> jsval \<Rightarrow> jsval \<Rightarrow> jsval list \<Rightarrow> error option \<times> heap" where
  "buildItems h headers data [] = (None, h)"
| "buildItems h headers data (item # items) =
     (case alloc h (Obj True []) of
        (dataItem, h1) \<Rightarrow>
     (case arrayOf h1 headers of
        Inl e \<Rightarrow> (Some e, h1)
      | Inr hs \<Rightarrow>
     (case fillItem h1 headers item dataItem hs of
        (Some e, h2) \<Rightarrow> (Some e, h2)
      | (None, h2) \<Rightarrow>
     (case push h2 data dataItem of
        Inl e \<Rightarrow> (Some e, h2)
      | Inr h3 \<Rightarrow> buildItems h3 headers data items))))"

text \<open>\<^verbatim>\<open>data[i][column] = metadata[data[i][column]]['name_' + lang]\<close>\<close>

definition assignName :: "string \<Rightarrow> heap \<Rightarrow> jsval \<Rightarrow> jsval \<Rightarrow> nat \<Rightarrow> string \<Rightarrow> error + heap" where
  "assignName lang h metadata data i column =
     (case getIndex h data (int i) of
        Inl e \<Rightarrow> Inl e
      | Inr dataItem \<Rightarrow>
     (case getProp h dataItem column of
        Inl e \<Rightarrow> Inl e
      | Inr code \<Rightarrow>
     (case toStringV code of
        Inl e \<Rightarrow> Inl e
      | Inr key \<Rightarrow>
     (case getProp h metadata key of
        Inl e \<Rightarrow> Inl e
      | Inr entry \<Rightarrow>
     (case getProp h entry (''name_'' @ lang) of
        Inl e \<Rightarrow> Inl e
      | Inr name \<Rightarrow> setProp h dataItem column name)))))"

definition iconPath :: "string \<Rightarrow> string \<Rightarrow> string" where
  "iconPath group' code = ''/static/img/icons/'' @ group' @ ''/section_'' @ code @ ''.png''"

text \<open>\<^verbatim>\<open>data[i]['icon'] = '/static/img/icons/' + group + '/section_' + data[i][group] + '.png'\<close>\<close>

definition assignIcon :: "heap \<Rightarrow> string \<Rightarrow> jsval \<Rightarrow> nat \<Rightarrow> error + heap" where
  "assignIcon h group' data i =
     (case getIndex h data (int i) of
        Inl e \<Rightarrow> Inl e
      | Inr dataItem \<Rightarrow>
     (case getProp h dataItem group' of
        Inl e \<Rightarrow> Inl e
      | Inr code \<Rightarrow>
     (case toStringV code of
        Inl e \<Rightarrow> Inl e
      | Inr s \<Rightarrow> setProp h dataItem ''icon'' (Prim (Str (iconPath group' s))))))"

text \<open>The body of the \<^verbatim>\<open>try\<close>: the exception that ends it, if any, and the
  store with the assignments made before it.\<close>

definition tryBody ::
  "string \<Rightarrow> string \<Rightarrow> string \<Rightarrow> heap \<Rightarrow> jsval \<Rightarrow> jsval \<Rightarrow> jsval \<Rightarrow> nat \<Rightarrow> error option \<times> heap" where
  "tryBody squares group' lang h squaresMetadata groupMetadata data i =
     (case assignName lang h squaresMetadata data i squares of
        Inl e \<Rightarrow> (Some e, h)
      | Inr h1 \<Rightarrow>
     (case (if group' = ''section'' then assignIcon h1 group' data i else Inr h1) of
        Inl e \<Rightarrow> (Some e, h1)
      | Inr h2 \<Rightarrow>
     (case assignName lang h2 groupMetadata data i group' of
        Inl e \<Rightarrow> (Some e, h2)
      | Inr h3 \<Rightarrow> (None, h3))))"

text \<open>\<^verbatim>\<open>for (var i = data.length - 1; i >= 0; i--) { try {...} catch (e) { data.splice(i, 1); } }\<close>:
  the last argument is \<open>i + 1\<close>.\<close>

fun enrichLoop ::
  "string \<Rightarrow> string \<Rightarrow> string \<Rightarrow> heap \<Rightarrow> jsval \<Rightarrow> jsval \<Rightarrow> jsval \<Rightarrow> nat \<Rightarrow> error option \<times> heap" where
  "enrichLoop squares group' lang h squaresMetadata groupMetadata data 0 = (None, h)"
| "enrichLoop squares group' lang h squaresMetadata groupMetadata data (Suc i) =
     (case tryBody squares group' lang h squaresMetadata groupMetadata data i of
        (None, h1) \<Rightarrow> enrichLoop squares group' lang h1 squaresMetadata groupMetadata data i
      | (Some TypeError, h1) \<Rightarrow>
          (case spliceH h1 data (int i) 1 [] of
             Inl e \<Rightarrow> (Some e, h1)
           | Inr h2 \<Rightarrow> enrichLoop squares group' lang h2 squaresMetadata groupMetadata data i)
      | (Some Unmodelled, h1) \<Rightarrow> (Some Unmodelled, h1))"

definition buildData ::
  "string \<Rightarrow> string \<Rightarrow> string \<Rightarrow> heap \<Rightarrow> jsval \<Rightarrow> jsval \<Rightarrow> jsval \<Rightarrow> (error + jsval) \<times> heap" where
  "buildData squares group' lang h responseApi squaresMetadata groupMetadata =
     (case alloc h (Arr []) of
        (data, h1) \<Rightarrow>
     (case getProp h1 responseApi ''headers'' of
        Inl e \<Rightarrow> (Inl e, h1)
      | Inr headers \<Rightarrow>
     (case getProp h1 responseApi ''data'' of
        Inl e \<Rightarrow> (Inl e, h1)
      | Inr rows \<Rightarrow>
     (case arrayOf h1 rows of
        Inl e \<Rightarrow> (Inl e, h1)
      | Inr items \<Rightarrow>
     (case buildItems h1 headers data items of
        (Some e, h2) \<Rightarrow> (Inl e, h2)
      | (None, h2) \<Rightarrow>
     (case arrayOf h2 data of
        Inl e \<Rightarrow> (Inl e, h2)
      | Inr ds \<Rightarrow>
     (case enrichLoop squares group' lang h2 squaresMetadata groupMetadata data (length ds) of
        (Some e, h3) \<Rightarrow> (Inl e, h3)
      | (None, h3) \<Rightarrow> (Inr data, h3))))))))"

subsection \<open>Reading the store\<close>

text \<open>
  What a reference stands for, read out of the store: the strings of an array
  of strings, the rows of the observation table, the entries of a lookup
  table, the objects of the array \<^verbatim>\<open>buildData\<close> returns. The result is \<open>None\<close>
  where the store does not have that shape.
\<close>

type_synonym props = "(string \<times> scalar) list"

type_synonym lookup = "(string \<times> props) list"

fun prims :: "(string \<times> jsval) list \<Rightarrow> props option" where
  "prims [] = Some []"
| "prims ((k, Prim s) # kvs) = map_option ((#) (k, s)) (prims kvs)"
| "prims ((k, v) # kvs) = None"

fun readAll :: "('a \<Rightarrow> 'b option) \<Rightarrow> 'a list \<Rightarrow> 'b list option" where
  "readAll f [] = Some []"
| "readAll f (v # vs) =
     (case f v of None \<Rightarrow> None | Some x \<Rightarrow> map_option ((#) x) (readAll f vs))"

text \<open>An object of a response: \<^verbatim>\<open>Object.prototype\<close> is its prototype.\<close>

fun readObject :: "((string \<times> jsval) list \<Rightarrow> 'a option) \<Rightarrow> heap \<Rightarrow> jsval \<Rightarrow> 'a option" where
  "readObject f h (Ref a) =
     (if a < length h
      then (case h ! a of Obj inherits kvs \<Rightarrow> (if inherits then f kvs else None) | Arr xs \<Rightarrow> None)
      else None)"
| "readObject f h v = None"

text \<open>The own properties of an object, whatever its prototype.\<close>

fun readOwn :: "heap \<Rightarrow> jsval \<Rightarrow> props option" where
  "readOwn h (Ref a) =
     (if a < length h
      then (case h ! a of Obj inherits kvs \<Rightarrow> prims kvs | Arr xs \<Rightarrow> None)
      else None)"
| "readOwn h v = None"

fun readArray :: "(jsval \<Rightarrow> 'a option) \<Rightarrow> heap \<Rightarrow> jsval \<Rightarrow> 'a list option" where
  "readArray f h (Ref a) =
     (if a < length h
      then (case h ! a of Arr xs \<Rightarrow> readAll f xs | Obj inherits kvs \<Rightarrow> None)
      else None)"
| "readArray f h v = None"

fun strOf :: "jsval \<Rightarrow> string option" where
  "strOf (Prim (Str s)) = Some s"
| "strOf v = None"

fun scalarOf :: "jsval \<Rightarrow> scalar option" where
  "scalarOf (Prim s) = Some s"
| "scalarOf v = None"

definition readStrs :: "heap \<Rightarrow> jsval \<Rightarrow> string list option" where
  "readStrs h v = readArray strOf h v"

definition readRecords :: "heap \<Rightarrow> jsval \<Rightarrow> props list option" where
  "readRecords h v = readArray (readOwn h) h v"

definition readRows :: "heap \<Rightarrow> jsval \<Rightarrow> scalar list list option" where
  "readRows h v = readArray (readArray scalarOf h) h v"

text \<open>The observation table \<^verbatim>\<open>{headers: string[], data: any[][]}\<close>, its cells scalars.\<close>

definition readTable :: "heap \<Rightarrow> jsval \<Rightarrow> (string list \<times> scalar list list) option" where
  "readTable h v =
     (case readObject (\<lambda>kvs. Some (map_of kvs ''headers'', map_of kvs ''data'')) h v of
        Some (Some headers, Some rows) \<Rightarrow>
          (case (readStrs h headers, readRows h rows) of
             (Some hs, Some rs) \<Rightarrow> Some (hs, rs)
           | _ \<Rightarrow> None)
      | _ \<Rightarrow> None)"

text \<open>A lookup table \<^verbatim>\<open>{code: {name_en: ..., ...}, ...}\<close>, every entry an object.\<close>

definition readLookup :: "heap \<Rightarrow> jsval \<Rightarrow> lookup option" where
  "readLookup h v =
     readObject (readAll (\<lambda>(k, e). map_option (Pair k) (readObject prims h e))) h v"

subsection \<open>The records of a table\<close>

text \<open>
  The same computation on the values read out of the store: the object made of
  a row, and what the three assignments of the \<^verbatim>\<open>try\<close> make of it, \<open>None\<close> when
  one of them throws. An object is given by its flag and its own properties.
  Every code read from the object is taken for a scalar here: these values
  describe a call that does not end as \<open>Unmodelled\<close>.
\<close>

text \<open>\<^verbatim>\<open>o[k]\<close> where it is a scalar: the own property \<open>k\<close>, or \<^verbatim>\<open>undefined\<close>.\<close>

definition field :: "props \<Rightarrow> string \<Rightarrow> scalar" where
  "field kvs k = (case map_of kvs k of None \<Rightarrow> Undefined | Some v \<Rightarrow> v)"

definition cellOf :: "string list \<Rightarrow> scalar list \<Rightarrow> string \<Rightarrow> scalar" where
  "cellOf hs item attr =
     (let index = indexOf hs attr
      in if 0 \<le> index \<and> nat index < length item then item ! nat index else Undefined)"

text \<open>\<^verbatim>\<open>o[k] = v\<close> for a scalar \<open>v\<close>, on the flag and the own properties of \<open>o\<close>.\<close>

definition assign :: "string \<Rightarrow> scalar \<Rightarrow> bool \<times> props \<Rightarrow> bool \<times> props" where
  "assign k v obj =
     (case obj of
        (inherits, kvs) \<Rightarrow>
          if k = ''__proto__'' \<and> inherits \<and> map_of kvs k = None
          then (if v = Null then (False, kvs) else (inherits, kvs))
          else (inherits, AList.update k v kvs))"

definition objectOf :: "string list \<Rightarrow> scalar list \<Rightarrow> bool \<times> props" where
  "objectOf hs item = fold (\<lambda>header. assign header (cellOf hs item header)) hs (True, [])"

text \<open>\<^verbatim>\<open>metadata[key]['name_' + lang]\<close>: \<open>None\<close> when it throws. A key that names
  an inherited member finds that member, whose name property is \<^verbatim>\<open>undefined\<close>.\<close>

definition lookupKey :: "string \<Rightarrow> lookup \<Rightarrow> string \<Rightarrow> scalar option" where
  "lookupKey lang tbl key =
     (case map_of tbl key of
        Some entry \<Rightarrow> Some (field entry (''name_'' @ lang))
      | None \<Rightarrow> if key \<in> set protoKeys then Some Undefined else None)"

definition lookupName :: "string \<Rightarrow> lookup \<Rightarrow> scalar \<Rightarrow> scalar option" where
  "lookupName lang tbl code = lookupKey lang tbl (toString code)"

definition setName ::
  "string \<Rightarrow> lookup \<Rightarrow> string \<Rightarrow> bool \<times> props \<Rightarrow> (bool \<times> props) option" where
  "setName lang tbl column obj =
     (case lookupName lang tbl (field (snd obj) column) of
        None \<Rightarrow> None
      | Some name \<Rightarrow> Some (assign column name obj))"

definition setIcon :: "string \<Rightarrow> bool \<times> props \<Rightarrow> bool \<times> props" where
  "setIcon group' obj =
     (if group' = ''section''
      then assign ''icon'' (Str (iconPath group' (toString (field (snd obj) group')))) obj
      else obj)"

definition enrich ::
  "string \<Rightarrow> string \<Rightarrow> string \<Rightarrow> lookup \<Rightarrow> lookup \<Rightarrow> bool \<times> props \<Rightarrow> (bool \<times> props) option" where
  "enrich squares group' lang squaresT groupT obj =
     (case setName lang squaresT squares obj of
        None \<Rightarrow> None
      | Some obj1 \<Rightarrow> setName lang groupT group' (setIcon group' obj1))"

text \<open>The object as it is left, also when its row is removed.\<close>

definition residue ::
  "string \<Rightarrow> string \<Rightarrow> string \<Rightarrow> lookup \<Rightarrow> lookup \<Rightarrow> bool \<times> props \<Rightarrow> bool \<times> props" where
  "residue squares group' lang squaresT groupT obj =
     (case setName lang squaresT squares obj of
        None \<Rightarrow> obj
      | Some obj1 \<Rightarrow>
          (case setName lang groupT group' (setIcon group' obj1) of
             None \<Rightarrow> setIcon group' obj1
           | Some obj3 \<Rightarrow> obj3))"



text \<open>The own properties of the objects that are kept, in the order of the rows.\<close>

definition enriched ::
  "string \<Rightarrow> string \<Rightarrow> string \<Rightarrow> lookup \<Rightarrow> lookup \<Rightarrow> string list \<Rightarrow> scalar list list \<Rightarrow> props list" where
  "enriched squares group' lang sT gT hs rows =
     map snd (List.map_filter (enrich squares group' lang sT gT) (map (objectOf hs) rows))"

subsection \<open>The shape of the store during a call\<close>

abbreviation PS :: "string \<Rightarrow> jsval" where
  "PS s \<equiv> Prim (Str s)"

definition emb :: "props \<Rightarrow> (string \<times> jsval) list" where
  "emb kvs = map (\<lambda>(k, s). (k, Prim s)) kvs"

definition mk :: "bool \<times> props \<Rightarrow> cell" where
  "mk obj = Obj (fst obj) (emb (snd obj))"

definition rowsAt :: "heap \<Rightarrow> jsval list \<Rightarrow> scalar list list \<Rightarrow> bool" where
  "rowsAt h items rows =
     list_all2 (\<lambda>v r. \<exists>ra. v = Ref ra \<and> ra < length h \<and> h ! ra = Arr (map Prim r)) items rows"

text \<open>Reading \<open>k\<close> from the object gives a scalar, its field, not an inherited member.\<close>

definition canRead :: "bool \<times> props \<Rightarrow> string \<Rightarrow> bool" where
  "canRead obj k = (k \<in> fst ` set (snd obj) \<or> \<not> fst obj \<or> k \<notin> set protoKeys)"

text \<open>The \<^verbatim>\<open>try\<close> on the object reads an inherited member where it reads a code.\<close>

definition stops :: "string \<Rightarrow> string \<Rightarrow> string \<Rightarrow> lookup \<Rightarrow> bool \<times> props \<Rightarrow> bool" where
  "stops squares group' lang sT obj =
     (\<not> canRead obj squares
      \<or> (case setName lang sT squares obj of
           None \<Rightarrow> False
         | Some obj1 \<Rightarrow> \<not> canRead (setIcon group' obj1) group'))"

fun freshRef :: "nat \<Rightarrow> jsval \<Rightarrow> bool" where
  "freshRef n (Ref a) = (n < a)"
| "freshRef n v = False"

text \<open>The store \<open>g\<close> of a call started in \<open>h\<close>: what \<open>h\<close> held is as it was, and
  the array made first holds references to objects made after it only.\<close>

definition keeps :: "heap \<Rightarrow> heap \<Rightarrow> bool" where
  "keeps h g =
     (take (length h) g = h \<and> length h < length g
      \<and> (case g ! length h of
           Arr ds \<Rightarrow> list_all (freshRef (length h)) ds
         | Obj inherits kvs \<Rightarrow> False))"

subsection \<open>Example stores\<close>

text \<open>A table of three rows with its two lookup tables: the group code of the
  second row and the entity code of the third have no entry.\<close>

definition exampleHeap :: heap where
  "exampleHeap =
     [Obj True [(''headers'', Ref 1), (''data'', Ref 2)],
      Arr [PS ''state'', PS ''section'', PS ''value''],
      Arr [Ref 3, Ref 4, Ref 5],
      Arr [PS ''SP'', PS ''01'', Prim (Num ''123'')],
      Arr [PS ''RJ'', PS ''02'', Prim (Num ''5'')],
      Arr [PS ''XX'', PS ''01'', Prim (Num ''7'')],
      Obj True [(''SP'', Ref 7), (''RJ'', Ref 8)],
      Obj True [(''name_en'', PS ''Sao Paulo''), (''name_pt'', PS ''Sao Paulo'')],
      Obj True [(''name_en'', PS ''Rio de Janeiro'')],
      Obj True [(''01'', Ref 10)],
      Obj True [(''name_en'', PS ''Animals'')]]"

definition exampleHeaders :: "string list" where
  "exampleHeaders = [''state'', ''section'', ''value'']"

definition exampleRows :: "scalar list list" where
  "exampleRows = [[Str ''SP'', Str ''01'', Num ''123''], [Str ''RJ'', Str ''02'', Num ''5''],
                  [Str ''XX'', Str ''01'', Num ''7'']]"

definition exampleSquares :: lookup where
  "exampleSquares = [(''SP'', [(''name_en'', Str ''Sao Paulo''), (''name_pt'', Str ''Sao Paulo'')]),
                     (''RJ'', [(''name_en'', Str ''Rio de Janeiro'')])]"

definition exampleGroups :: lookup where
  "exampleGroups = [(''01'', [(''name_en'', Str ''Animals'')])]"

definition exampleRecord :: props where
  "exampleRecord = [(''state'', Str ''Sao Paulo''), (''section'', Str ''Animals''),
                    (''value'', Num ''123''),
                    (''icon'', Str ''/static/img/icons/section/section_01.png'')]"

text \<open>
  The store of a table of one row, an entity lookup with one entry and a group
  lookup with one entry: the table is at address 0, the entity lookup at 4,
  the group lookup at 6, and the next array made is at 8.
\<close>

definition oneRow ::
  "string list \<Rightarrow> scalar list \<Rightarrow> string \<times> props \<Rightarrow> string \<times> props \<Rightarrow> heap" where
  "oneRow hs row entity grp =
     [Obj True [(''headers'', Ref 1), (''data'', Ref 2)],
      Arr (map PS hs),
      Arr [Ref 3],
      Arr (map Prim row),
      Obj True [(fst entity, Ref 5)],
      Obj True (emb (snd entity)),
      Obj True [(fst grp, Ref 7)],
      Obj True (emb (snd grp))]"

text \<open>The depth chain \<open>state+municipality+section\<close>.\<close>

definition depthsHeap :: heap where
  "depthsHeap = [Arr [PS ''state'', PS ''municipality'', PS ''section'']]"







definition protoHeaderStore :: heap where
  "protoHeaderStore =
     oneRow [''__proto__'', ''state'', ''hs''] [Str ''x'', Str ''SP'', Str ''01'']
       (''SP'', [(''name_en'', Str ''Sao Paulo'')]) (''01'', [(''name_en'', Str ''Animals'')])"


definition undefinedEntityStore :: heap where
  "undefinedEntityStore =
     oneRow [''state'', ''hs''] [Str ''SP'', Str ''01'']
       (''undefined'', [(''name_en'', Str ''Nowhere'')]) (''01'', [(''name_en'', Str ''Animals'')])"

definition undefinedGroupStore :: heap where
  "undefinedGroupStore =
     oneRow [''state'', ''hs''] [Str ''SP'', Str ''01'']
       (''SP'', [(''name_en'', Str ''Sao Paulo'')]) (''undefined'', [(''name_en'', Str ''Nothing'')])"




section \<open>Lemmas\<close>

subsection \<open>Lists\<close>


lemma indexOf_in:
  "x \<in> set xs \<Longrightarrow> 0 \<le> indexOf xs x \<and> nat (indexOf xs x) < length xs \<and> xs ! nat (indexOf xs x) = x"
proof (induction xs)
  case Nil
  then show ?case by simp
next
  case (Cons y ys)
  show ?case
  proof (cases "y = x")
    case True
    then show ?thesis by simp
  next
    case False
    with Cons have "0 \<le> indexOf ys x \<and> nat (indexOf ys x) < length ys \<and> ys ! nat (indexOf ys x) = x"
      by simp
    with False show ?thesis by (simp add: Let_def nat_add_distrib)
  qed
qed

lemma indexOf_map: "inj f \<Longrightarrow> indexOf (map f xs) (f x) = indexOf xs x"
  by (induction xs) (auto simp: Let_def dest: injD)

lemma splice_indexOf: "x \<in> set xs \<Longrightarrow> splice xs (indexOf xs x) 1 [] = remove1 x xs"
proof (induction xs)
  case Nil
  then show ?case by simp
next
  case (Cons y ys)
  show ?case
  proof (cases "y = x")
    case True
    then show ?thesis by (simp add: splice_def)
  next
    case False
    with Cons.prems have m: "x \<in> set ys" by simp
    from indexOf_in [OF m] have b: "0 \<le> indexOf ys x" "nat (indexOf ys x) < length ys" by simp_all
    obtain k where k: "indexOf ys x = int k" using b(1) by (metis nat_0_le)
    with b have kl: "k < length ys" by simp
    from Cons.IH [OF m] k kl have "take k ys @ drop (Suc k) ys = remove1 x ys"
      by (simp add: splice_def Let_def min_def nat_add_distrib)
    with False k kl show ?thesis
      by (simp add: splice_def Let_def min_def nat_add_distrib)
  qed
qed

lemma remove1_map_inj: "inj f \<Longrightarrow> remove1 (f x) (map f xs) = map f (remove1 x xs)"
  by (induction xs) (auto dest: injD)

lemma splice_front: "splice xs 0 0 [e] = e # xs"
  by (simp add: splice_def)

lemma remove1_once: "count_list xs e = 1 \<Longrightarrow> remove1 e xs = filter (\<lambda>x. x \<noteq> e) xs"
proof (induction xs)
  case Nil
  then show ?case by simp
next
  case (Cons y ys)
  show ?case
  proof (cases "y = e")
    case True
    with Cons.prems have "count_list ys e = 0" by simp
    then have "e \<notin> set ys" by (simp add: count_list_0_iff)
    then have "filter (\<lambda>x. x \<noteq> e) ys = ys" by (intro filter_True) auto
    with True show ?thesis by simp
  next
    case False
    with Cons show ?thesis by simp
  qed
qed

lemma splice_one: "splice (xs @ x # ys) (int (length xs)) 1 [] = xs @ ys"
  by (simp add: splice_def Let_def nat_add_distrib)

lemma set_splice: "set (splice xs i d []) \<subseteq> set xs"
  by (auto simp: splice_def Let_def dest: in_set_takeD in_set_dropD)

lemma filter_nth:
  "map (\<lambda>j. f (xs ! j)) (filter (\<lambda>j. P (xs ! j)) [0..<length xs]) = map f (filter P xs)"
proof -
  have "map f (filter P (map ((!) xs) [0..<length xs]))
        = map (\<lambda>j. f (xs ! j)) (filter (\<lambda>j. P (xs ! j)) [0..<length xs])"
    by (simp add: filter_map o_def)
  then show ?thesis by (simp add: map_nth)
qed


lemma map_filter_set:
  "rec \<in> set (List.map_filter f xs) \<longleftrightarrow> (\<exists>x\<in>set xs. f x = Some rec)"
  by (induction xs) (auto simp: List.map_filter_simps split: option.splits)

subsection \<open>Reading the store\<close>

text \<open>What a reader that succeeds says about the store.\<close>

lemma readAll_map:
  "(\<And>x. x \<in> set xs \<Longrightarrow> f (g x) = Some (r x)) \<Longrightarrow> readAll f (map g xs) = Some (map r xs)"
  by (induction xs) auto

lemma readAll_Some_map:
  "readAll f vs = Some xs \<Longrightarrow> (\<And>v x. f v = Some x \<Longrightarrow> v = g x) \<Longrightarrow> vs = map g xs"
  by (induction vs arbitrary: xs) (auto split: option.splits)

lemma readAll_list_all2: "readAll f vs = Some xs \<Longrightarrow> list_all2 (\<lambda>v x. f v = Some x) vs xs"
  by (induction vs arbitrary: xs) (auto split: option.splits)

lemma readObject_Some:
  "readObject f h v = Some x \<Longrightarrow>
   \<exists>a kvs. v = Ref a \<and> a < length h \<and> h ! a = Obj True kvs \<and> f kvs = Some x"
  by (cases v) (auto split: if_splits cell.splits)

lemma readArray_Some:
  "readArray f h v = Some xs \<Longrightarrow> \<exists>a vs. v = Ref a \<and> a < length h \<and> h ! a = Arr vs \<and> readAll f vs = Some xs"
  by (cases v) (auto split: if_splits cell.splits)

lemma strOf_Some: "strOf v = Some s \<Longrightarrow> v = Prim (Str s)"
  by (cases v rule: strOf.cases) simp_all

lemma scalarOf_Some: "scalarOf v = Some s \<Longrightarrow> v = Prim s"
  by (cases v) simp_all

lemma readStrs_arrayOf: "readStrs h v = Some xs \<Longrightarrow> arrayOf h v = Inr (map (\<lambda>s. Prim (Str s)) xs)"
  by (cases v) (auto simp: readStrs_def split: if_splits cell.splits dest: readAll_Some_map [where g = "\<lambda>s. Prim (Str s)"] strOf_Some)

lemma readScalars_Some:
  assumes "readArray scalarOf h v = Some r"
  shows "\<exists>ra. v = Ref ra \<and> ra < length h \<and> h ! ra = Arr (map Prim r)"
proof -
  from readArray_Some [OF assms] obtain ra vs where
    v: "v = Ref ra" "ra < length h" "h ! ra = Arr vs" "readAll scalarOf vs = Some r" by auto
  from readAll_Some_map [OF v(4), of Prim] have "vs = map Prim r" by (simp add: scalarOf_Some)
  with v show ?thesis by simp
qed

lemma emb_update: "AList.update k (Prim v) (emb kvs) = emb (AList.update k v kvs)"
  by (induction kvs) (auto simp: emb_def)

lemma map_of_emb: "map_of (emb kvs) k = map_option Prim (map_of kvs k)"
  by (induction kvs) (auto simp: emb_def)

lemma prims_emb': "prims (emb fs) = Some fs"
  by (induction fs) (auto simp: emb_def)

lemma prims_Some: "prims kvs = Some fs \<Longrightarrow> kvs = emb fs"
  by (induction kvs arbitrary: fs rule: prims.induct) (auto simp: emb_def)

lemma setProp_assign:
  assumes "a < length g" "g ! a = mk obj"
  shows "setProp g (Ref a) k (Prim v) = Inr (g[a := mk (assign k v obj)])"
proof -
  obtain inherits kvs where o: "obj = (inherits, kvs)" by (cases obj)
  have cell: "g ! a = Obj inherits (emb kvs)" using assms(2) o by (simp add: mk_def)
  have "g[a := g ! a] = g" by simp
  then have same: "g[a := Obj inherits (emb kvs)] = g" by (simp only: cell)
  show ?thesis
  proof (cases "k = ''__proto__'' \<and> inherits \<and> map_of kvs k = None")
    case True
    then have k: "k = ''__proto__''" and i: "inherits" and m: "map_of kvs ''__proto__'' = None"
      by blast+
    have n: "map_of (emb kvs) ''__proto__'' = None" using m by (simp only: map_of_emb option.map)
    have s: "setProp g (Ref a) k (Prim v) = Inr (if v = Null then g[a := Obj False (emb kvs)] else g)"
      using assms(1) cell i n unfolding k by simp
    have "assign k v obj = (if v = Null then (False, kvs) else (True, kvs))"
      using i m unfolding k o by (simp add: assign_def)
    then have "g[a := mk (assign k v obj)] = (if v = Null then g[a := Obj False (emb kvs)] else g)"
      using same i by (simp add: mk_def)
    with s show ?thesis by simp
  next
    case False
    then have f1: "(k = ''__proto__'' \<and> inherits \<and> map_of kvs k = None) = False" by simp
    have "map_of (emb kvs) k = None \<longleftrightarrow> map_of kvs k = None" by (simp add: map_of_emb)
    with False have f2: "(k = ''__proto__'' \<and> inherits \<and> map_of (emb kvs) k = None) = False"
      by simp
    have s: "setProp g (Ref a) k (Prim v) = Inr (g[a := Obj inherits (AList.update k (Prim v) (emb kvs))])"
      by (simp only: setProp.simps assms(1) if_True cell cell.case f2 if_False)
    have "assign k v obj = (inherits, AList.update k v kvs)"
      by (simp only: assign_def o prod.case f1 if_False)
    then have "mk (assign k v obj) = Obj inherits (AList.update k (Prim v) (emb kvs))"
      by (simp add: mk_def emb_update)
    with s show ?thesis by simp
  qed
qed

lemma getProp_mk:
  assumes "a < length g" "g ! a = mk obj"
  shows "getProp g (Ref a) k
         = Inr (if canRead obj k then Prim (field (snd obj) k) else Inherited k)"
proof -
  obtain inherits kvs where o: "obj = (inherits, kvs)" by (cases obj)
  have cell: "g ! a = Obj inherits (emb kvs)" using assms(2) o by (simp add: mk_def)
  show ?thesis
  proof (cases "map_of kvs k")
    case None
    then have "k \<notin> fst ` set kvs" by (simp add: map_of_eq_None_iff)
    with None assms(1) cell o show ?thesis
      by (simp add: map_of_emb field_def canRead_def)
  next
    case (Some v)
    then have "k \<in> fst ` set kvs" by (metis map_of_eq_None_iff option.distinct(1))
    with Some assms(1) cell o show ?thesis
      by (simp add: map_of_emb field_def canRead_def)
  qed
qed

lemma name_not_inherited: "''name_'' @ lang \<notin> set protoKeys"
  by (simp add: protoKeys_def)

lemma getProp_name:
  assumes "a < length g" "g ! a = Obj True (emb fs)"
  shows "getProp g (Ref a) (''name_'' @ lang) = Inr (Prim (field fs (''name_'' @ lang)))"
proof -
  have "g ! a = mk (True, fs)" using assms(2) by (simp add: mk_def)
  from getProp_mk [OF assms(1) this, of "''name_'' @ lang"] name_not_inherited [of lang]
  show ?thesis by (simp add: canRead_def)
qed

lemma inj_PS: "inj PS"
  by (simp add: inj_def)

lemma nth_heap_obj: "(h @ c # objs) ! (Suc (length h) + j) = objs ! j"
  by (simp add: nth_append)

lemma take_heap:
  assumes "take (length h) g = h"
  shows "length h \<le> length g \<and> (\<forall>a<length h. g ! a = h ! a)"
proof -
  from assms have "length (take (length h) g) = length h" by simp
  then have l: "length h \<le> length g" by simp
  have "g ! a = h ! a" if "a < length h" for a
  proof -
    from that have "take (length h) g ! a = g ! a" by simp
    with assms show ?thesis by simp
  qed
  with l show ?thesis by simp
qed

lemma arrayOf_heap: "arrayOf (h @ Arr ds # objs) (Ref (length h)) = Inr ds"
  by simp

lemma spliceH_heap:
  "spliceH (h @ Arr ds # objs) (Ref (length h)) i d xs = Inr (h @ Arr (splice ds i d xs) # objs)"
  by (simp add: spliceH_def)

lemma readTable_Some:
  assumes "readTable h v = Some (hs, rows)"
  shows "\<exists>a kvs ha da items. v = Ref a \<and> a < length h \<and> h ! a = Obj True kvs
           \<and> map_of kvs ''headers'' = Some (Ref ha) \<and> map_of kvs ''data'' = Some (Ref da)
           \<and> ha < length h \<and> h ! ha = Arr (map PS hs)
           \<and> da < length h \<and> h ! da = Arr items \<and> rowsAt h items rows"
proof -
  from assms obtain headers rowsv where
    o: "readObject (\<lambda>kvs. Some (map_of kvs ''headers'', map_of kvs ''data'')) h v
          = Some (Some headers, Some rowsv)"
    and hs: "readStrs h headers = Some hs" and rs: "readRows h rowsv = Some rows"
    by (auto simp: readTable_def split: option.splits prod.splits)
  from readObject_Some [OF o] obtain a kvs where
    a: "v = Ref a" "a < length h" "h ! a = Obj True kvs"
       "map_of kvs ''headers'' = Some headers" "map_of kvs ''data'' = Some rowsv"
    by auto
  from readArray_Some [OF hs [unfolded readStrs_def]] obtain ha vs where
    ha: "headers = Ref ha" "ha < length h" "h ! ha = Arr vs" "readAll strOf vs = Some hs" by auto
  from readAll_Some_map [OF ha(4), of PS] have vs: "vs = map PS hs" by (simp add: strOf_Some)
  from readArray_Some [OF rs [unfolded readRows_def]] obtain da items where
    da: "rowsv = Ref da" "da < length h" "h ! da = Arr items"
        "readAll (readArray scalarOf h) items = Some rows" by auto
  from readAll_list_all2 [OF da(4)] have "rowsAt h items rows"
    unfolding rowsAt_def by (rule list_all2_mono) (rule readScalars_Some)
  with a ha vs da show ?thesis by blast
qed

lemma entries_lookup:
  "readAll (\<lambda>(k, e). map_option (Pair k) (readObject prims h e)) kvs = Some tbl \<Longrightarrow>
   (case map_of tbl key of
      None \<Rightarrow> map_of kvs key = None
    | Some fs \<Rightarrow> \<exists>b. map_of kvs key = Some (Ref b) \<and> b < length h \<and> h ! b = Obj True (emb fs))"
proof (induction kvs arbitrary: tbl)
  case Nil
  then show ?case by simp
next
  case (Cons kv kvs)
  obtain k e where kv: "kv = (k, e)" by (cases kv)
  from Cons.prems kv obtain fs rest where
    e: "readObject prims h e = Some fs" and r: "readAll (\<lambda>(k, e). map_option (Pair k) (readObject prims h e)) kvs = Some rest"
    and t: "tbl = (k, fs) # rest"
    by (auto split: option.splits)
  from readObject_Some [OF e] obtain b entry where
    b: "e = Ref b" "b < length h" "h ! b = Obj True entry" "prims entry = Some fs" by auto
  from prims_Some [OF b(4)] b have hb: "h ! b = Obj True (emb fs)" by simp
  show ?case
  proof (cases "key = k")
    case True
    with kv t b hb show ?thesis by simp
  next
    case False
    with Cons.IH [OF r] kv t show ?thesis by (simp split: option.splits)
  qed
qed

lemma lookup_read:
  assumes "readLookup h M = Some tbl" and "take (length h) g = h"
  shows "(case getProp g M key of
            Inl e \<Rightarrow> Inl e
          | Inr entry \<Rightarrow>
              (case getProp g entry (''name_'' @ lang) of Inl e \<Rightarrow> Inl e | Inr name \<Rightarrow> K name))
         = (case lookupKey lang tbl key of None \<Rightarrow> Inl TypeError | Some v \<Rightarrow> K (Prim v))"
proof -
  from take_heap [OF assms(2)] have g: "length h \<le> length g" "\<And>a. a < length h \<Longrightarrow> g ! a = h ! a"
    by simp_all
  from readObject_Some [OF assms(1) [unfolded readLookup_def]] obtain t kvs where
    t: "M = Ref t" "t < length h" "h ! t = Obj True kvs"
    and r: "readAll (\<lambda>(k, e). map_option (Pair k) (readObject prims h e)) kvs = Some tbl"
    by auto
  have tg: "t < length g" "g ! t = Obj True kvs" using t g by simp_all
  have nm: "take 5 (''name_'' @ lang) = ''name_''" by simp
  show ?thesis
  proof (cases "map_of tbl key")
    case None
    with entries_lookup [OF r, of key] have m: "map_of kvs key = None" by simp
    show ?thesis
    proof (cases "key \<in> set protoKeys")
      case True
      with m have 1: "getProp g M key = Inr (Inherited key)" using t(1) tg by simp
      have 2: "getProp g (Inherited key) (''name_'' @ lang) = Inr (Prim Undefined)"
        by (simp only: getProp.simps nm simp_thms if_True)
      have 3: "lookupKey lang tbl key = Some Undefined" using None True by (simp add: lookupKey_def)
      show ?thesis by (simp only: 1 2 3 sum.case option.case)
    next
      case False
      with m have 1: "getProp g M key = Inr (Prim Undefined)" using t(1) tg by simp
      have 3: "lookupKey lang tbl key = None" using None False by (simp add: lookupKey_def)
      show ?thesis by (simp only: 1 3 getProp.simps sum.case option.case)
    qed
  next
    case (Some fs)
    with entries_lookup [OF r, of key] obtain b where
      b: "map_of kvs key = Some (Ref b)" "b < length h" "h ! b = Obj True (emb fs)" by auto
    have 1: "getProp g M key = Inr (Ref b)" using t(1) tg b(1) by simp
    have 2: "getProp g (Ref b) (''name_'' @ lang) = Inr (Prim (field fs (''name_'' @ lang)))"
      using b g by (intro getProp_name) simp_all
    have 3: "lookupKey lang tbl key = Some (field fs (''name_'' @ lang))"
      using Some by (simp add: lookupKey_def)
    show ?thesis by (simp only: 1 2 3 sum.case option.case)
  qed
qed

subsection \<open>The depth selector helper\<close>

text \<open>The helper writes above the store it starts in, and what it returns for a level of the chain.\<close>

lemma setIndex_keeps:
  "setIndex g (Ref a) i v = Inr g' \<Longrightarrow> n \<le> a \<Longrightarrow> take n g' = take n g \<and> length g' = length g"
  by (auto split: if_splits cell.splits)

lemma spliceH_keeps:
  "spliceH g (Ref a) i d xs = Inr g' \<Longrightarrow> n \<le> a \<Longrightarrow> take n g' = take n g \<and> length g' = length g"
  by (auto simp: spliceH_def split: if_splits cell.splits sum.splits)

lemma wrapEach_keeps:
  "n \<le> a \<Longrightarrow> n \<le> length g \<Longrightarrow>
   take n (snd (wrapEach d g (Ref a) k items)) = take n g
   \<and> length g \<le> length (snd (wrapEach d g (Ref a) k items))"
proof (induction items arbitrary: g k)
  case Nil
  then show ?case by simp
next
  case (Cons item items)
  show ?case
  proof (cases "toStringV item")
    case (Inl e)
    then show ?thesis by simp
  next
    case (Inr key)
    let ?g1 = "g @ [Obj True [(label d key, item)]]"
    show ?thesis
    proof (cases "setIndex ?g1 (Ref a) k (Ref (length g))")
      case (Inl e)
      with Inr Cons.prems show ?thesis by (simp add: alloc_def)
    next
      case (Inr g2)
      from setIndex_keeps [OF Inr Cons.prems(1)] Cons.prems
      have k: "take n g2 = take n g" "length g2 = Suc (length g)" by simp_all
      from Cons.IH [of g2 "Suc k"] Cons.prems k
      have "take n (snd (wrapEach d g2 (Ref a) (Suc k) items)) = take n g
            \<and> length g \<le> length (snd (wrapEach d g2 (Ref a) (Suc k) items))"
        by simp
      with \<open>toStringV item = Inr key\<close> Inr show ?thesis by (simp add: alloc_def)
    qed
  qed
qed

lemma depthSelectorHelper_keeps:
  "take (length h) (snd (depthSelectorHelper d h array element)) = h"
proof (cases "arrayOf h array")
  case (Inl e)
  then show ?thesis by (simp add: depthSelectorHelper_def slice0_def)
next
  case (Inr xs)
  let ?n = "length h"
  let ?h1 = "h @ [Arr xs]"
  have s: "slice0 h array = Inr (Ref ?n, ?h1)" using Inr by (simp add: slice0_def alloc_def)
  have i: "indexOfH ?h1 (Ref ?n) element = Inr (indexOf xs element)" by (simp add: indexOfH_def)
  show ?thesis
  proof (cases "spliceH ?h1 (Ref ?n) (indexOf xs element) 1 []")
    case (Inl e)
    with s i show ?thesis by (simp add: depthSelectorHelper_def)
  next
    case h2: (Inr h2)
    from spliceH_keeps [OF h2, of ?n] have k2: "take ?n h2 = h" "length h2 = Suc ?n" by simp_all
    show ?thesis
    proof (cases "spliceH h2 (Ref ?n) 0 0 [element]")
      case (Inl e)
      with s i h2 k2 show ?thesis by (simp add: depthSelectorHelper_def)
    next
      case h3: (Inr h3)
      from spliceH_keeps [OF h3, of ?n] k2 have k3: "take ?n h3 = h" "length h3 = Suc ?n" by simp_all
      show ?thesis
      proof (cases "arrayOf h3 (Ref ?n)")
        case (Inl e)
        with s i h2 h3 k3 show ?thesis by (simp add: depthSelectorHelper_def)
      next
        case (Inr items)
        from wrapEach_keeps [of ?n ?n h3 d 0 items] k3
        have "take ?n (snd (wrapEach d h3 (Ref ?n) 0 items)) = h" by simp
        with s i h2 h3 Inr show ?thesis
          by (cases "wrapEach d h3 (Ref ?n) 0 items")
             (simp add: depthSelectorHelper_def split: option.splits)
      qed
    qed
  qed
qed

lemma wrapEach_result:
  "wrapEach d (h @ Arr (pre @ map Prim ss) # objs) (Ref (length h)) (length pre) (map Prim ss)
   = (None, h @ Arr (pre @ map (\<lambda>j. Ref (Suc (length h) + length objs + j)) [0..<length ss])
             # objs @ map (\<lambda>s. Obj True [(label d (toString s), Prim s)]) ss)"
proof (induction ss arbitrary: pre objs)
  case Nil
  then show ?case by simp
next
  case (Cons s ss)
  let ?o = "Obj True [(label d (toString s), Prim s)]"
  let ?r = "Ref (Suc (length h) + length objs)"
  have a: "alloc (h @ Arr (pre @ map Prim (s # ss)) # objs) ?o
           = (?r, h @ Arr (pre @ map Prim (s # ss)) # (objs @ [?o]))"
    by (simp add: alloc_def)
  have w: "setIndex (h @ Arr (pre @ map Prim (s # ss)) # (objs @ [?o])) (Ref (length h)) (length pre) ?r
           = Inr (h @ Arr ((pre @ [?r]) @ map Prim ss) # (objs @ [?o]))"
    by (simp add: nth_append list_update_append)
  have u: "[0..<Suc (length ss)] = 0 # map Suc [0..<length ss]"
    by (simp add: upt_conv_Cons map_Suc_upt del: upt_Suc)
  from Cons [of "pre @ [?r]" "objs @ [?o]"] a w show ?case
    by (simp add: u o_def del: upt_Suc)
qed

lemma readRecords_wrapped:
  "readRecords (h @ Arr (map (\<lambda>j. Ref (Suc (length h) + j)) [0..<length ss])
                  # map (\<lambda>s. Obj True [(label d (toString s), Prim s)]) ss) (Ref (length h))
   = Some (map (\<lambda>s. [(label d (toString s), s)]) ss)"
proof -
  let ?H = "h @ Arr (map (\<lambda>j. Ref (Suc (length h) + j)) [0..<length ss])
                  # map (\<lambda>s. Obj True [(label d (toString s), Prim s)]) ss"
  have A: "readAll (readOwn ?H) (map (\<lambda>j. Ref (Suc (length h) + j)) [0..<length ss])
        = Some (map (\<lambda>j. [(label d (toString (ss ! j)), ss ! j)]) [0..<length ss])"
  proof (rule readAll_map)
    fix j assume "j \<in> set [0..<length ss]"
    then have j: "j < length ss" by simp
    then have "?H ! (Suc (length h) + j) = Obj True [(label d (toString (ss ! j)), Prim (ss ! j))]"
      by (simp only: nth_heap_obj nth_map)
    with j show "readOwn ?H (Ref (Suc (length h) + j)) = Some [(label d (toString (ss ! j)), ss ! j)]"
      by simp
  qed
  have B: "map (\<lambda>j. [(label d (toString (ss ! j)), ss ! j)]) [0..<length ss] = map (\<lambda>s. [(label d (toString s), s)]) ss"
    by (rule nth_equalityI) simp_all
  have len: "length h < length ?H" by simp
  have cell: "?H ! length h = Arr (map (\<lambda>j. Ref (Suc (length h) + j)) [0..<length ss])"
    by (rule nth_append_length)
  show ?thesis
    by (simp only: readRecords_def readArray.simps len if_True cell cell.case A B)
qed

subsection \<open>The records of a table\<close>


lemma keys_assign:
  "fst ` set (snd (assign k v obj)) \<subseteq> insert k (fst ` set (snd obj))"
  "k \<noteq> ''__proto__'' \<Longrightarrow> fst ` set (snd (assign k v obj)) = insert k (fst ` set (snd obj))"
  by (cases obj; auto simp: assign_def dom_update)+



lemma keys_fold_assign_eq:
  "''__proto__'' \<notin> set hs \<Longrightarrow>
   fst ` set (snd (fold (\<lambda>header. assign header (c header)) hs obj))
   = set hs \<union> fst ` set (snd obj)"
proof (induction hs arbitrary: obj)
  case Nil
  then show ?case by simp
next
  case (Cons header hs)
  from Cons.prems have h: "header \<noteq> ''__proto__''" "''__proto__'' \<notin> set hs" by auto
  from Cons.IH [OF h(2), of "assign header (c header) obj"] keys_assign(2) [OF h(1), of "c header" obj]
  show ?case by auto
qed




lemma keys_objectOf:
  "''__proto__'' \<notin> set hs \<Longrightarrow> fst ` set (snd (objectOf hs r)) = set hs"
  using keys_fold_assign_eq [of hs "cellOf hs r" "(True, [])"]
  by (simp add: objectOf_def)

lemma canRead_key: "k \<in> fst ` set (snd obj) \<Longrightarrow> canRead obj k"
  by (simp add: canRead_def)

lemma canRead_assign: "canRead obj k \<Longrightarrow> canRead (assign k' v obj) k"
  by (cases obj) (auto simp: canRead_def assign_def dom_update)

lemma canRead_section: "canRead obj ''section''"
  by (simp add: canRead_def protoKeys_def)


lemma keys_setIcon:
  "fst ` set (snd (setIcon g obj))
   = fst ` set (snd obj) \<union> (if g = ''section'' then {''icon''} else {})"
  by (simp add: setIcon_def keys_assign(2))

lemma setName_Some:
  "setName lang tbl c obj = Some obj' \<longleftrightarrow>
   (\<exists>name. lookupName lang tbl (field (snd obj) c) = Some name \<and> obj' = assign c name obj)"
  by (auto simp: setName_def split: option.splits)


lemma enrich_Some:
  "enrich squares group' lang sT gT obj = Some obj' \<longleftrightarrow>
   (\<exists>n1 n2. lookupName lang sT (field (snd obj) squares) = Some n1
      \<and> lookupName lang gT (field (snd (setIcon group' (assign squares n1 obj))) group') = Some n2
      \<and> obj' = assign group' n2 (setIcon group' (assign squares n1 obj)))"
  by (auto simp: enrich_def setName_def split: option.splits)




lemma keys_enrich:
  assumes "enrich squares group' lang sT gT obj = Some obj'"
    and "squares \<noteq> ''__proto__''" "group' \<noteq> ''__proto__''"
  shows "fst ` set (snd obj') = fst ` set (snd obj) \<union> {squares, group'}
           \<union> (if group' = ''section'' then {''icon''} else {})"
proof -
  from assms(1) obtain n1 n2 where
    o: "obj' = assign group' n2 (setIcon group' (assign squares n1 obj))"
    by (auto simp: enrich_Some)
  show ?thesis
    unfolding o keys_assign(2) [OF assms(3)] keys_setIcon keys_assign(2) [OF assms(2)]
    by auto
qed


lemma map_filter_enrich:
  "map (residue squares group' lang sT gT)
     (filter (\<lambda>obj. enrich squares group' lang sT gT obj \<noteq> None) items)
   = List.map_filter (enrich squares group' lang sT gT) items"
  by (induction items)
     (auto simp: List.map_filter_simps enrich_def residue_def split: option.splits)

lemma own_columns_read:
  assumes "squares \<in> fst ` set (snd obj)" "group' \<in> fst ` set (snd obj)"
  shows "\<not> stops squares group' lang sT obj"
proof -
  have 1: "canRead obj squares" "canRead obj group'" using assms by (simp_all add: canRead_key)
  have "canRead (setIcon group' (assign squares n obj)) group'" for n
    using 1(2) by (auto simp: setIcon_def intro!: canRead_assign)
  with 1(1) show ?thesis by (auto simp: stops_def setName_Some split: option.splits)
qed

subsection \<open>The store that buildData leaves\<close>

text \<open>Each step of \<^verbatim>\<open>buildData\<close> on a well-shaped store, by the value it computes.\<close>

lemma fillItem_result:
  assumes "ha < length g" "g ! ha = Arr (map PS hs)"
    and "ra < length g" "g ! ra = Arr (map Prim r)"
    and "a < length g" "g ! a = mk obj"
  shows "fillItem g (Ref ha) (Ref ra) (Ref a) (map PS hs')
         = (None, g[a := mk (fold (\<lambda>header. assign header (cellOf hs r header)) hs' obj)])"
  using assms
proof (induction hs' arbitrary: g obj)
  case Nil
  then show ?case by (simp add: list_update_same_conv [THEN iffD2])
next
  case (Cons header hs')
  have na: "a \<noteq> ha" "a \<noteq> ra" using Cons.prems by (auto simp: mk_def)
  have ga: "getAttrByName g (Ref ha) (Ref ra) (PS header) = Inr (Prim (cellOf hs r header))"
    using Cons.prems by (simp add: getAttrByName_def indexOfH_def indexOf_map [OF inj_PS] cellOf_def Let_def)
  let ?obj1 = "assign header (cellOf hs r header) obj"
  let ?g1 = "g[a := mk ?obj1]"
  have sp: "setProp g (Ref a) header (Prim (cellOf hs r header)) = Inr ?g1"
    using Cons.prems by (intro setProp_assign) simp_all
  have "fillItem ?g1 (Ref ha) (Ref ra) (Ref a) (map PS hs')
        = (None, ?g1[a := mk (fold (\<lambda>header. assign header (cellOf hs r header)) hs' ?obj1)])"
    using Cons.prems na by (intro Cons.IH) simp_all
  then show ?case using ga sp by simp
qed

lemma buildItems_result:
  assumes "ha < length h" "h ! ha = Arr (map PS hs)" "rowsAt h items rows"
  shows "buildItems (h @ Arr (map Ref as) # objs) (Ref ha) (Ref (length h)) items
         = (None, h @ Arr (map Ref (as @ map (\<lambda>j. Suc (length h) + length objs + j) [0..<length rows]))
                  # objs @ map (\<lambda>r. mk (objectOf hs r)) rows)"
  using assms(3) unfolding rowsAt_def
proof (induction items rows arbitrary: as objs rule: list_all2_induct)
  case Nil
  then show ?case by simp
next
  case (Cons item items r rows)
  from Cons(1) obtain ra where ra: "item = Ref ra" "ra < length h" "h ! ra = Arr (map Prim r)" by auto
  let ?n = "length h"
  let ?g = "h @ Arr (map Ref as) # objs"
  let ?a = "Suc ?n + length objs"
  let ?g1 = "?g @ [Obj True []]"
  have al: "alloc ?g (Obj True []) = (Ref ?a, ?g1)" by (simp add: alloc_def)
  have ah: "arrayOf ?g1 (Ref ha) = Inr (map PS hs)"
    using assms(1,2) by (simp add: nth_append)
  have f: "fillItem ?g1 (Ref ha) (Ref ra) (Ref ?a) (map PS hs)
       = (None, ?g1[?a := mk (objectOf hs r)])"
    unfolding objectOf_def
    using assms(1,2) ra by (intro fillItem_result) (simp_all add: nth_append emb_def mk_def)
  have g2: "?g1[?a := mk (objectOf hs r)] = h @ Arr (map Ref as) # objs @ [mk (objectOf hs r)]"
    by (simp add: list_update_append)
  have p: "push (h @ Arr (map Ref as) # objs @ [mk (objectOf hs r)]) (Ref ?n) (Ref ?a)
       = Inr (h @ Arr (map Ref (as @ [?a])) # (objs @ [mk (objectOf hs r)]))"
    by (simp add: push_def)
  have u: "[0..<Suc (length rows)] = 0 # map Suc [0..<length rows]"
    by (simp add: upt_conv_Cons map_Suc_upt del: upt_Suc)
  show ?case
    unfolding ra(1) buildItems.simps al prod.case ah sum.case f g2 option.case p
      Cons.IH [of "as @ [?a]" "objs @ [mk (objectOf hs r)]"]
    by (simp add: u o_def del: upt_Suc)
qed

lemma assignName_result:
  assumes "readLookup h M = Some tbl" and "take (length h) g = h"
    and "n < length g" "g ! n = Arr ds" "i < length ds" "ds ! i = Ref a"
    and "a < length g" "g ! a = mk obj"
  shows "assignName lang g M (Ref n) i column
         = (if canRead obj column
            then (case setName lang tbl column obj of
                    None \<Rightarrow> Inl TypeError
                  | Some obj' \<Rightarrow> Inr (g[a := mk obj']))
            else Inl Unmodelled)"
proof -
  have gi: "getIndex g (Ref n) (int i) = Inr (Ref a)" using assms(3-6) by simp
  note gp = getProp_mk [OF assms(7,8), of column]
  show ?thesis
  proof (cases "canRead obj column")
    case False
    have gp': "getProp g (Ref a) column = Inr (Inherited column)"
      unfolding gp using False by simp
    have "assignName lang g M (Ref n) i column = Inl Unmodelled"
      unfolding assignName_def gi gp' sum.case toStringV.simps ..
    with False show ?thesis by simp
  next
    case True
    have gp': "getProp g (Ref a) column = Inr (Prim (field (snd obj) column))"
      unfolding gp using True by simp
    have sp: "\<And>v. setProp g (Ref a) column (Prim v) = Inr (g[a := mk (assign column v obj)])"
      using assms(7,8) by (rule setProp_assign)
    have "assignName lang g M (Ref n) i column
          = (case lookupKey lang tbl (toString (field (snd obj) column)) of
               None \<Rightarrow> Inl TypeError
             | Some v \<Rightarrow> setProp g (Ref a) column (Prim v))"
      unfolding assignName_def gi gp' sum.case toStringV.simps
      by (rule lookup_read [OF assms(1,2)])
    then show ?thesis
      unfolding sp using True by (simp add: setName_def lookupName_def split: option.splits)
  qed
qed

lemma assignIcon_result:
  assumes "n < length g" "g ! n = Arr ds" "i < length ds" "ds ! i = Ref a"
    and "a < length g" "g ! a = mk obj"
  shows "assignIcon g ''section'' (Ref n) i = Inr (g[a := mk (setIcon ''section'' obj)])"
proof -
  have gi: "getIndex g (Ref n) (int i) = Inr (Ref a)" using assms(1-4) by simp
  have gp: "getProp g (Ref a) ''section'' = Inr (Prim (field (snd obj) ''section''))"
    unfolding getProp_mk [OF assms(5,6)] using canRead_section [of obj] by simp
  have si: "setIcon ''section'' obj
        = assign ''icon'' (Str (iconPath ''section'' (toString (field (snd obj) ''section'')))) obj"
    by (simp add: setIcon_def)
  have sp: "setProp g (Ref a) ''icon''
              (Prim (Str (iconPath ''section'' (toString (field (snd obj) ''section'')))))
        = Inr (g[a := mk (setIcon ''section'' obj)])"
    unfolding si using assms(5,6) by (rule setProp_assign)
  show ?thesis
    unfolding assignIcon_def gi gp sum.case toStringV.simps sp ..
qed

lemma tryBody_result:
  assumes "readLookup h sM = Some sT" "readLookup h gM = Some gT" and "take (length h) g = h"
    and "n < length g" "g ! n = Arr ds" "i < length ds" "ds ! i = Ref a"
    and "a < length g" "g ! a = mk obj" "length h \<le> a" "a \<noteq> n"
  shows "fst (tryBody squares group' lang g sM gM (Ref n) i)
         = (if stops squares group' lang sT obj then Some Unmodelled
            else if enrich squares group' lang sT gT obj = None then Some TypeError else None)
       \<and> (\<not> stops squares group' lang sT obj \<longrightarrow>
            snd (tryBody squares group' lang g sM gM (Ref n) i)
            = g[a := mk (residue squares group' lang sT gT obj)])"
proof -
  note a1 = assignName_result [OF assms(1,3-9), where lang = lang and column = squares]
  have same: "g[a := mk obj] = g" using assms(9) by (metis list_update_id)
  show ?thesis
  proof (cases "canRead obj squares")
    case False
    have t: "tryBody squares group' lang g sM gM (Ref n) i = (Some Unmodelled, g)"
      unfolding tryBody_def a1 using False by simp
    have s: "stops squares group' lang sT obj" using False by (simp add: stops_def)
    show ?thesis unfolding t using s by simp
  next
    case True
    show ?thesis
    proof (cases "setName lang sT squares obj")
      case None
      have t: "tryBody squares group' lang g sM gM (Ref n) i = (Some TypeError, g)"
        unfolding tryBody_def a1 using True None by simp
      have s: "\<not> stops squares group' lang sT obj" using True None by (simp add: stops_def)
      have e: "enrich squares group' lang sT gT obj = None"
        "residue squares group' lang sT gT obj = obj"
        using None by (simp_all add: enrich_def residue_def)
      show ?thesis unfolding t e using s same by simp
    next
      case (Some obj1)
      let ?g1 = "g[a := mk obj1]"
      let ?obj2 = "setIcon group' obj1"
      let ?g2 = "g[a := mk ?obj2]"
      have a1': "assignName lang g sM (Ref n) i squares = Inr ?g1"
        unfolding a1 using True Some by simp
      have p1: "n < length ?g1" "?g1 ! n = Arr ds" "a < length ?g1" "?g1 ! a = mk obj1"
        using assms(4,5,8,11) by simp_all
      have a2: "(if group' = ''section'' then assignIcon ?g1 group' (Ref n) i else Inr ?g1)
                = Inr ?g2"
      proof (cases "group' = ''section''")
        case True
        with assignIcon_result [OF p1(1,2) assms(6,7) p1(3,4)] show ?thesis by simp
      next
        case False
        then show ?thesis by (simp add: setIcon_def)
      qed
      have t2: "take (length h) ?g2 = h" using assms(3,10) by (simp add: take_update_cancel)
      have p2: "n < length ?g2" "?g2 ! n = Arr ds" "a < length ?g2" "?g2 ! a = mk ?obj2"
        using assms(4,5,8,11) by simp_all
      note a3 = assignName_result [OF assms(2) t2 p2(1,2) assms(6,7) p2(3,4),
          where lang = lang and column = group']
      have st: "stops squares group' lang sT obj \<longleftrightarrow> \<not> canRead ?obj2 group'"
        using True Some by (simp add: stops_def)
      show ?thesis
      proof (cases "canRead ?obj2 group'")
        case False
        have a3': "assignName lang ?g2 gM (Ref n) i group' = Inl Unmodelled"
          unfolding a3 using False by simp
        have t: "tryBody squares group' lang g sM gM (Ref n) i = (Some Unmodelled, ?g2)"
          unfolding tryBody_def a1' sum.case a2 a3' ..
        show ?thesis unfolding t using st False by simp
      next
        case r: True
        show ?thesis
        proof (cases "setName lang gT group' ?obj2")
          case None
          have a3': "assignName lang ?g2 gM (Ref n) i group' = Inl TypeError"
            unfolding a3 using r None by simp
          have t: "tryBody squares group' lang g sM gM (Ref n) i = (Some TypeError, ?g2)"
            unfolding tryBody_def a1' sum.case a2 a3' ..
          have e: "enrich squares group' lang sT gT obj = None"
            "residue squares group' lang sT gT obj = ?obj2"
            using Some None by (simp_all add: enrich_def residue_def)
          show ?thesis unfolding t e using st r by simp
        next
          case obj3: (Some obj3)
          have a3': "assignName lang ?g2 gM (Ref n) i group' = Inr (g[a := mk obj3])"
            unfolding a3 using r obj3 by simp
          have t: "tryBody squares group' lang g sM gM (Ref n) i = (None, g[a := mk obj3])"
            unfolding tryBody_def a1' sum.case a2 a3' ..
          have e: "enrich squares group' lang sT gT obj = Some obj3"
            "residue squares group' lang sT gT obj = obj3"
            using Some obj3 by (simp_all add: enrich_def residue_def)
          show ?thesis unfolding t e using st r by simp
        qed
      qed
    qed
  qed
qed

lemma enrichLoop_result:
  assumes "readLookup h sM = Some sT" "readLookup h gM = Some gT"
  shows "fst (enrichLoop squares group' lang
           (h @ Arr (map Ref (map (\<lambda>j. Suc (length h) + j) [0..<length items] @ K))
              # map mk items @ rest)
           sM gM (Ref (length h)) (length items))
         = (if \<exists>obj\<in>set items. stops squares group' lang sT obj then Some Unmodelled else None)
       \<and> ((\<forall>obj\<in>set items. \<not> stops squares group' lang sT obj) \<longrightarrow>
           snd (enrichLoop squares group' lang
             (h @ Arr (map Ref (map (\<lambda>j. Suc (length h) + j) [0..<length items] @ K))
                # map mk items @ rest)
             sM gM (Ref (length h)) (length items))
           = h @ Arr (map Ref (map (\<lambda>j. Suc (length h) + j)
                       (filter (\<lambda>j. enrich squares group' lang sT gT (items ! j) \<noteq> None)
                          [0..<length items]) @ K))
              # map (\<lambda>obj. mk (residue squares group' lang sT gT obj)) items @ rest)"
proof (induction items arbitrary: K rest rule: rev_induct)
  case Nil
  then show ?case by simp
next
  case (snoc obj items)
  let ?n = "length h"
  let ?m = "length items"
  let ?a = "Suc ?n + ?m"
  let ?A = "map (\<lambda>j. Suc ?n + j) [0..<?m]"
  let ?ds = "map Ref ?A @ Ref ?a # map Ref K"
  let ?g = "h @ Arr ?ds # map mk items @ mk obj # rest"
  let ?F = "\<lambda>obj. mk (residue squares group' lang sT gT obj)"
  let ?g1 = "h @ Arr ?ds # map mk items @ ?F obj # rest"
  let ?E = "\<lambda>g i. enrichLoop squares group' lang g sM gM (Ref ?n) i"
  let ?P = "\<lambda>xs j. enrich squares group' lang sT gT (xs ! j) \<noteq> None"
  let ?S = "stops squares group' lang sT"
  let ?R = "\<lambda>xs K rest. h @ Arr (map Ref (map (\<lambda>j. Suc ?n + j)
                (filter (?P xs) [0..<length xs]) @ K)) # map ?F xs @ rest"
  have g: "h @ Arr (map Ref (map (\<lambda>j. Suc ?n + j) [0..<length (items @ [obj])] @ K))
              # map mk (items @ [obj]) @ rest = ?g"
    by simp
  have c: "?n < length ?g" "?g ! ?n = Arr ?ds" "?m < length ?ds" "?ds ! ?m = Ref ?a"
    "?a < length ?g" "length h \<le> ?a" "?a \<noteq> ?n" "take ?n ?g = h"
    by (simp_all add: nth_append)
  have "?g ! ?a = (map mk items @ mk obj # rest) ! ?m" by (rule nth_heap_obj)
  then have ga: "?g ! ?a = mk obj" by (simp add: nth_append)
  have up: "?g[?a := ?F obj] = ?g1"
    by (simp add: list_update_append)
  note tb = tryBody_result [OF assms c(8) c(1,2,3,4,5) ga c(6,7),
      where squares = squares and group' = group' and lang = lang]
  have start: "?E (h @ Arr (map Ref (map (\<lambda>j. Suc ?n + j) [0..<length (items @ [obj])] @ K))
              # map mk (items @ [obj]) @ rest) (length (items @ [obj])) = ?E ?g (Suc ?m)"
    unfolding g by (simp only: length_append_singleton)
  show ?case
  proof (cases "?S obj")
    case True
    obtain e h1 where t: "tryBody squares group' lang ?g sM gM (Ref ?n) ?m = (e, h1)"
      by (cases "tryBody squares group' lang ?g sM gM (Ref ?n) ?m")
    from tb True have "e = Some Unmodelled" unfolding t by simp
    with t have t': "tryBody squares group' lang ?g sM gM (Ref ?n) ?m = (Some Unmodelled, h1)"
      by simp
    have r: "?E ?g (Suc ?m) = (Some Unmodelled, h1)"
      by (simp only: enrichLoop.simps t' prod.case option.case error.case)
    have ex: "(\<exists>x\<in>set (items @ [obj]). ?S x) = True"
      and all: "(\<forall>x\<in>set (items @ [obj]). \<not> ?S x) = False"
      using True by simp_all
    show ?thesis unfolding start r fst_conv snd_conv ex all by simp
  next
    case False
    obtain e h1 where t: "tryBody squares group' lang ?g sM gM (Ref ?n) ?m = (e, h1)"
      by (cases "tryBody squares group' lang ?g sM gM (Ref ?n) ?m")
    from tb False have e: "e = (if enrich squares group' lang sT gT obj = None
                               then Some TypeError else None)"
      and h1: "h1 = ?g1"
      unfolding t up by simp_all
    have f: "filter (?P (items @ [obj])) [0..<length (items @ [obj])]
             = filter (?P items) [0..<?m]
               @ (if enrich squares group' lang sT gT obj = None then [] else [?m])"
      by (auto simp: nth_append intro: filter_cong)
    have ex: "(\<exists>x\<in>set (items @ [obj]). ?S x) \<longleftrightarrow> (\<exists>x\<in>set items. ?S x)"
      using False by auto
    have "\<exists>K'. ?E ?g (Suc ?m)
                 = ?E (h @ Arr (map Ref (?A @ K')) # map mk items @ (?F obj # rest)) ?m
               \<and> ?R (items @ [obj]) K rest = ?R items K' (?F obj # rest)"
    proof (cases "enrich squares group' lang sT gT obj = None")
      case True
      let ?g2 = "h @ Arr (map Ref (?A @ K)) # map mk items @ (?F obj # rest)"
      have s1: "splice ?ds (int ?m) 1 [] = map Ref (?A @ K)"
        using splice_one [of "map Ref ?A" "Ref ?a" "map Ref K"] by simp
      have sp: "spliceH ?g1 (Ref ?n) (int ?m) 1 [] = Inr ?g2"
        unfolding s1 [symmetric] by (rule spliceH_heap)
      have t': "tryBody squares group' lang ?g sM gM (Ref ?n) ?m = (Some TypeError, ?g1)"
        unfolding t e h1 using True by simp
      have 1: "?E ?g (Suc ?m) = ?E ?g2 ?m"
        by (simp only: enrichLoop.simps t' prod.case option.case error.case sp sum.case)
      have 2: "?R (items @ [obj]) K rest = ?R items K (?F obj # rest)"
        unfolding f using True by simp
      from 1 2 show ?thesis by blast
    next
      case False
      let ?g2 = "h @ Arr (map Ref (?A @ (?a # K))) # map mk items @ (?F obj # rest)"
      have eq: "?g1 = ?g2" by simp
      have t': "tryBody squares group' lang ?g sM gM (Ref ?n) ?m = (None, ?g2)"
        unfolding t e h1 eq using False by simp
      have 1: "?E ?g (Suc ?m) = ?E ?g2 ?m"
        by (simp only: enrichLoop.simps t' prod.case option.case)
      have 2: "?R (items @ [obj]) K rest = ?R items (?a # K) (?F obj # rest)"
        unfolding f using False by simp
      from 1 2 show ?thesis by blast
    qed
    then obtain K' where
      1: "?E ?g (Suc ?m) = ?E (h @ Arr (map Ref (?A @ K')) # map mk items @ (?F obj # rest)) ?m"
      and 2: "?R (items @ [obj]) K rest = ?R items K' (?F obj # rest)"
      by blast
    note ih = snoc.IH [of K' "?F obj # rest"]
    have all: "(\<forall>x\<in>set (items @ [obj]). \<not> ?S x) \<longleftrightarrow> (\<forall>x\<in>set items. \<not> ?S x)"
      using False by auto
    show ?thesis
      unfolding start 1 2 ex all by (rule ih)
  qed
qed

lemma readRecords_result:
  "readRecords (h @ Arr (map Ref (map (\<lambda>j. Suc (length h) + j)
                   (filter (\<lambda>j. P (items ! j)) [0..<length items])))
                  # map (\<lambda>obj. mk (F obj)) items) (Ref (length h))
   = Some (map (\<lambda>obj. snd (F obj)) (filter P items))"
proof -
  let ?js = "filter (\<lambda>j. P (items ! j)) [0..<length items]"
  let ?H = "h @ Arr (map Ref (map (\<lambda>j. Suc (length h) + j) ?js)) # map (\<lambda>obj. mk (F obj)) items"
  have A: "readAll (readOwn ?H) (map (\<lambda>j. Ref (Suc (length h) + j)) ?js)
        = Some (map (\<lambda>j. snd (F (items ! j))) ?js)"
  proof (rule readAll_map)
    fix j assume "j \<in> set ?js"
    then have j: "j < length items" by simp
    then have "?H ! (Suc (length h) + j) = Obj (fst (F (items ! j))) (emb (snd (F (items ! j))))"
      by (simp only: nth_heap_obj nth_map mk_def)
    with j show "readOwn ?H (Ref (Suc (length h) + j)) = Some (snd (F (items ! j)))"
      by (simp add: prims_emb')
  qed
  have len: "length h < length ?H" by simp
  have cell: "?H ! length h = Arr (map (\<lambda>j. Ref (Suc (length h) + j)) ?js)"
    by (simp add: o_def)
  show ?thesis
    by (simp only: readRecords_def readArray.simps len if_True cell cell.case A
        filter_nth [where f = "\<lambda>obj. snd (F obj)"])
qed

lemma buildData_result:
  assumes "readTable h responseApi = Some (hs, rows)"
    and "readLookup h squaresMetadata = Some sT" "readLookup h groupMetadata = Some gT"
  shows "fst (buildData squares group' lang h responseApi squaresMetadata groupMetadata)
         = (if \<exists>row\<in>set rows. stops squares group' lang sT (objectOf hs row)
            then Inl Unmodelled else Inr (Ref (length h)))
       \<and> ((\<forall>row\<in>set rows. \<not> stops squares group' lang sT (objectOf hs row)) \<longrightarrow>
           snd (buildData squares group' lang h responseApi squaresMetadata groupMetadata)
           = h @ Arr (map Ref (map (\<lambda>j. Suc (length h) + j)
                       (filter (\<lambda>j. enrich squares group' lang sT gT
                                      (map (objectOf hs) rows ! j) \<noteq> None)
                          [0..<length (map (objectOf hs) rows)])))
              # map (\<lambda>obj. mk (residue squares group' lang sT gT obj))
                  (map (objectOf hs) rows))"
proof -
  let ?n = "length h"
  let ?items = "map (objectOf hs) rows"
  from readTable_Some [OF assms(1)] obtain a kvs ha da items where
    a: "responseApi = Ref a" "a < length h" "h ! a = Obj True kvs"
       "map_of kvs ''headers'' = Some (Ref ha)" "map_of kvs ''data'' = Some (Ref da)"
    and ha: "ha < length h" "h ! ha = Arr (map PS hs)"
    and da: "da < length h" "h ! da = Arr items" and rows: "rowsAt h items rows"
    by blast
  let ?h1 = "h @ [Arr []]"
  have al: "alloc h (Arr []) = (Ref ?n, ?h1)" by (simp add: alloc_def)
  have g1: "getProp ?h1 responseApi ''headers'' = Inr (Ref ha)"
    using a by (simp add: nth_append)
  have g2: "getProp ?h1 responseApi ''data'' = Inr (Ref da)"
    using a by (simp add: nth_append)
  have g3: "arrayOf ?h1 (Ref da) = Inr items"
    using da by (simp add: nth_append)
  let ?ds = "map Ref (map (\<lambda>j. Suc ?n + j) [0..<length ?items] @ [])"
  let ?h2 = "h @ Arr ?ds # map mk ?items @ []"
  let ?L = "enrichLoop squares group' lang ?h2 squaresMetadata groupMetadata (Ref ?n)
              (length ?items)"
  have "buildItems (h @ Arr (map Ref []) # []) (Ref ha) (Ref ?n) items
        = (None, h @ Arr (map Ref ([] @ map (\<lambda>j. Suc ?n + length ([]::cell list) + j) [0..<length rows]))
                  # [] @ map (\<lambda>r. mk (objectOf hs r)) rows)"
    using ha rows by (rule buildItems_result)
  then have b: "buildItems ?h1 (Ref ha) (Ref ?n) items = (None, ?h2)"
    by (simp add: o_def)
  have g4: "arrayOf ?h2 (Ref ?n) = Inr ?ds" by (rule arrayOf_heap)
  have l: "length ?ds = length ?items" by simp
  have bd: "buildData squares group' lang h responseApi squaresMetadata groupMetadata
        = (case ?L of (Some e, h3) \<Rightarrow> (Inl e, h3) | (None, h3) \<Rightarrow> (Inr (Ref ?n), h3))"
    by (simp only: buildData_def al prod.case g1 g2 g3 sum.case b option.case g4 l)
  note e = enrichLoop_result [OF assms(2,3), where squares = squares and group' = group'
      and lang = lang and items = ?items and K = "[]" and rest = "[]"]
  obtain eo h3 where L: "?L = (eo, h3)" by (cases ?L)
  have ex: "(\<exists>obj\<in>set ?items. stops squares group' lang sT obj)
            \<longleftrightarrow> (\<exists>row\<in>set rows. stops squares group' lang sT (objectOf hs row))"
    by simp
  have all: "(\<forall>obj\<in>set ?items. \<not> stops squares group' lang sT obj)
            \<longleftrightarrow> (\<forall>row\<in>set rows. \<not> stops squares group' lang sT (objectOf hs row))"
    by simp
  from e have eo: "eo = (if \<exists>row\<in>set rows. stops squares group' lang sT (objectOf hs row)
                         then Some Unmodelled else None)"
    and h3: "(\<forall>row\<in>set rows. \<not> stops squares group' lang sT (objectOf hs row)) \<longrightarrow>
           h3 = h @ Arr (map Ref (map (\<lambda>j. Suc ?n + j)
                       (filter (\<lambda>j. enrich squares group' lang sT gT (?items ! j) \<noteq> None)
                          [0..<length ?items]) @ []))
              # map (\<lambda>obj. mk (residue squares group' lang sT gT obj)) ?items @ []"
    unfolding L fst_conv snd_conv ex all by blast+
  show ?thesis
    unfolding bd L using eo h3 by (simp only: append_Nil2 split: option.splits) auto
qed

subsection \<open>What buildData writes\<close>

text \<open>Every step of \<^verbatim>\<open>buildData\<close> keeps the store it started in, on any arguments.\<close>

lemma keeps_update:
  assumes "keeps h g" "length h < a"
  shows "keeps h (g[a := c])"
  using assms by (simp add: keeps_def take_update_cancel)

lemma keeps_alloc: "keeps h g \<Longrightarrow> keeps h (g @ [c])"
  by (auto simp: keeps_def nth_append)

lemma setProp_keeps:
  "setProp g (Ref a) k v = Inr g' \<Longrightarrow> length h < a \<Longrightarrow> keeps h g \<Longrightarrow> keeps h g'"
  by (auto split: if_splits cell.splits jsval.splits intro: keeps_update)

lemma fillItem_keeps:
  "length h < a \<Longrightarrow> keeps h g \<Longrightarrow> keeps h (snd (fillItem g headers item (Ref a) hs))"
proof (induction hs arbitrary: g)
  case Nil
  then show ?case by simp
next
  case (Cons header hs)
  show ?case
  proof (cases "getAttrByName g headers item header")
    case (Inl e)
    with Cons.prems show ?thesis by simp
  next
    case v: (Inr v)
    show ?thesis
    proof (cases "toStringV header")
      case (Inl e)
      with v Cons.prems show ?thesis by simp
    next
      case key: (Inr key)
      show ?thesis
      proof (cases "setProp g (Ref a) key v")
        case (Inl e)
        with v key Cons.prems show ?thesis by simp
      next
        case (Inr g1)
        from setProp_keeps [OF Inr Cons.prems] have "keeps h g1" .
        from Cons.IH [OF Cons.prems(1) this] v key Inr show ?thesis by simp
      qed
    qed
  qed
qed

lemma push_keeps:
  assumes "push g (Ref (length h)) (Ref a) = Inr g'" "length h < a" "keeps h g"
  shows "keeps h g'"
  using assms by (auto simp: push_def keeps_def split: if_splits cell.splits sum.splits)

lemma buildItems_keeps:
  "keeps h g \<Longrightarrow> keeps h (snd (buildItems g headers (Ref (length h)) items))"
proof (induction items arbitrary: g)
  case Nil
  then show ?case by simp
next
  case (Cons item items)
  let ?g1 = "g @ [Obj True []]"
  have al: "alloc g (Obj True []) = (Ref (length g), ?g1)" by (simp add: alloc_def)
  have k1: "keeps h ?g1" using Cons.prems by (rule keeps_alloc)
  have fr: "length h < length g" using Cons.prems by (simp add: keeps_def)
  show ?case
  proof (cases "arrayOf ?g1 headers")
    case (Inl e)
    with al k1 show ?thesis by simp
  next
    case hs: (Inr hs)
    obtain r g2 where f: "fillItem ?g1 headers item (Ref (length g)) hs = (r, g2)"
      by (cases "fillItem ?g1 headers item (Ref (length g)) hs")
    from fillItem_keeps [OF fr k1, of headers item hs] f have k2: "keeps h g2" by simp
    show ?thesis
    proof (cases r)
      case (Some e)
      with al hs f k2 show ?thesis by simp
    next
      case None
      show ?thesis
      proof (cases "push g2 (Ref (length h)) (Ref (length g))")
        case (Inl e)
        with al hs f None k2 show ?thesis by simp
      next
        case (Inr g3)
        from push_keeps [OF Inr fr k2] have "keeps h g3" .
        from Cons.IH [OF this] al hs f None Inr show ?thesis by simp
      qed
    qed
  qed
qed

lemma getIndex_data:
  assumes "keeps h g" "getIndex g (Ref (length h)) i = Inr v"
  shows "v = Prim Undefined \<or> (\<exists>a. v = Ref a \<and> length h < a)"
proof -
  from assms(1) obtain ds where ds: "g ! length h = Arr ds" "list_all (freshRef (length h)) ds"
    by (auto simp: keeps_def split: cell.splits)
  show ?thesis
  proof (cases "0 \<le> i \<and> nat i < length ds")
    case True
    with ds(2) have "freshRef (length h) (ds ! nat i)" by (simp add: list_all_length)
    then have "\<exists>a. ds ! nat i = Ref a \<and> length h < a" by (cases "ds ! nat i") simp_all
    with assms ds True show ?thesis by (auto simp: keeps_def)
  next
    case False
    with assms ds show ?thesis by (auto simp: keeps_def)
  qed
qed

lemma setProp_data_keeps:
  assumes "keeps h g" "getIndex g (Ref (length h)) i = Inr dataItem"
    and "setProp g dataItem k v = Inr g'"
  shows "keeps h g'"
proof -
  from getIndex_data [OF assms(1,2)] assms(3) obtain a where "dataItem = Ref a" "length h < a"
    by auto
  with assms(3,1) show ?thesis by (auto intro: setProp_keeps)
qed

lemma assignName_keeps:
  assumes "keeps h g" "assignName lang g M (Ref (length h)) i column = Inr g'"
  shows "keeps h g'"
  using assms(2) unfolding assignName_def
  by (auto split: sum.splits intro: setProp_data_keeps [OF assms(1)])

lemma assignIcon_keeps:
  assumes "keeps h g" "assignIcon g group' (Ref (length h)) i = Inr g'"
  shows "keeps h g'"
  using assms(2) unfolding assignIcon_def
  by (auto split: sum.splits intro: setProp_data_keeps [OF assms(1)])

lemma tryBody_keeps:
  assumes "keeps h g"
  shows "keeps h (snd (tryBody squares group' lang g sM gM (Ref (length h)) i))"
proof (cases "assignName lang g sM (Ref (length h)) i squares")
  case (Inl e)
  with assms show ?thesis by (simp add: tryBody_def)
next
  case h1: (Inr h1)
  from assignName_keeps [OF assms h1] have k1: "keeps h h1" .
  show ?thesis
  proof (cases "if group' = ''section'' then assignIcon h1 group' (Ref (length h)) i else Inr h1")
    case (Inl e)
    with h1 k1 show ?thesis by (simp add: tryBody_def)
  next
    case h2: (Inr h2)
    have k2: "keeps h h2" using h2 k1 assignIcon_keeps [OF k1] by (auto split: if_splits)
    show ?thesis
    proof (cases "assignName lang h2 gM (Ref (length h)) i group'")
      case (Inl e)
      with h1 h2 k2 show ?thesis by (simp add: tryBody_def)
    next
      case (Inr h3)
      from assignName_keeps [OF k2 Inr] h1 h2 Inr show ?thesis by (simp add: tryBody_def)
    qed
  qed
qed

lemma spliceH_data_keeps:
  assumes "keeps h g" "spliceH g (Ref (length h)) i d [] = Inr g'"
  shows "keeps h g'"
proof -
  from assms(1) obtain ds where ds: "g ! length h = Arr ds" "list_all (freshRef (length h)) ds"
    by (auto simp: keeps_def split: cell.splits)
  from ds(2) set_splice [of ds i d] have "list_all (freshRef (length h)) (splice ds i d [])"
    by (auto simp: list_all_iff)
  with assms ds(1) show ?thesis
    by (auto simp: spliceH_def keeps_def split: if_splits)
qed

lemma enrichLoop_keeps:
  "keeps h g \<Longrightarrow> keeps h (snd (enrichLoop squares group' lang g sM gM (Ref (length h)) i))"
proof (induction i arbitrary: g)
  case 0
  then show ?case by simp
next
  case (Suc i)
  obtain r g1 where t: "tryBody squares group' lang g sM gM (Ref (length h)) i = (r, g1)"
    by (cases "tryBody squares group' lang g sM gM (Ref (length h)) i")
  from tryBody_keeps [OF Suc.prems, of squares group' lang sM gM i] t have k1: "keeps h g1" by simp
  show ?case
  proof (cases r)
    case None
    with t Suc.IH [OF k1] show ?thesis by simp
  next
    case (Some e)
    show ?thesis
    proof (cases e)
      case TypeError
      show ?thesis
      proof (cases "spliceH g1 (Ref (length h)) (int i) 1 []")
        case (Inl e')
        with t Some TypeError k1 show ?thesis by simp
      next
        case (Inr g2)
        from spliceH_data_keeps [OF k1 Inr] have "keeps h g2" .
        from Suc.IH [OF this] t Some TypeError Inr show ?thesis by simp
      qed
    next
      case Unmodelled
      with t Some k1 show ?thesis by simp
    qed
  qed
qed

lemma buildData_keeps:
  "take (length h) (snd (buildData squares group' lang h responseApi sM gM)) = h"
proof -
  let ?h1 = "h @ [Arr []]"
  let ?d = "Ref (length h)"
  have al: "alloc h (Arr []) = (?d, ?h1)" by (simp add: alloc_def)
  have k1: "keeps h ?h1" by (simp add: keeps_def)
  have t1: "take (length h) ?h1 = h" by simp
  show ?thesis
  proof (cases "getProp ?h1 responseApi ''headers''")
    case (Inl e)
    with al show ?thesis by (simp add: buildData_def)
  next
    case headers: (Inr headers)
    show ?thesis
    proof (cases "getProp ?h1 responseApi ''data''")
      case (Inl e)
      with al headers show ?thesis by (simp add: buildData_def)
    next
      case rows: (Inr rows)
      show ?thesis
      proof (cases "arrayOf ?h1 rows")
        case (Inl e)
        with al headers rows show ?thesis by (simp add: buildData_def)
      next
        case items: (Inr items)
        obtain r h2 where b: "buildItems ?h1 headers ?d items = (r, h2)"
          by (cases "buildItems ?h1 headers ?d items")
        from buildItems_keeps [OF k1, of headers items] b have k2: "keeps h h2" by simp
        then have t2: "take (length h) h2 = h" by (simp add: keeps_def)
        show ?thesis
        proof (cases r)
          case (Some e)
          with al headers rows items b t2 show ?thesis by (simp add: buildData_def)
        next
          case None
          show ?thesis
          proof (cases "arrayOf h2 ?d")
            case (Inl e)
            with al headers rows items b None t2 show ?thesis by (simp add: buildData_def)
          next
            case ds: (Inr ds)
            obtain r' h3 where
              e: "enrichLoop squares group' lang h2 sM gM ?d (length ds) = (r', h3)"
              by (cases "enrichLoop squares group' lang h2 sM gM ?d (length ds)")
            from enrichLoop_keeps [OF k2, of squares group' lang sM gM "length ds"] e
            have "take (length h) h3 = h" by (simp add: keeps_def)
            with al headers rows items b None ds e show ?thesis
              by (cases r') (simp_all add: buildData_def)
          qed
        qed
      qed
    qed
  qed
qed

subsection \<open>The result of the two functions\<close>

text \<open>What a call on a well-shaped store returns, in the values read out of it.\<close>

lemma buildData_records:
  assumes "readTable h responseApi = Some (hs, rows)"
    and "readLookup h squaresMetadata = Some sT" "readLookup h groupMetadata = Some gT"
    and "\<forall>row\<in>set rows. \<not> stops squares group' lang sT (objectOf hs row)"
  shows "fst (buildData squares group' lang h responseApi squaresMetadata groupMetadata)
           = Inr (Ref (length h))
    \<and> readRecords (snd (buildData squares group' lang h responseApi squaresMetadata groupMetadata))
         (Ref (length h))
       = Some (enriched squares group' lang sT gT hs rows)"
proof -
  let ?items = "map (objectOf hs) rows"
  let ?P = "\<lambda>obj. enrich squares group' lang sT gT obj \<noteq> None"
  note b = buildData_result [OF assms(1-3), of squares group' lang]
  from b assms(4) have 1:
    "fst (buildData squares group' lang h responseApi squaresMetadata groupMetadata)
       = Inr (Ref (length h))"
    by simp
  from b assms(4) have 2:
    "snd (buildData squares group' lang h responseApi squaresMetadata groupMetadata)
       = h @ Arr (map Ref (map (\<lambda>j. Suc (length h) + j)
                   (filter (\<lambda>j. ?P (?items ! j)) [0..<length ?items])))
          # map (\<lambda>obj. mk (residue squares group' lang sT gT obj)) ?items"
    by blast
  note r = readRecords_result [where h = h and items = ?items and P = ?P
      and F = "residue squares group' lang sT gT"]
  have m: "map (\<lambda>obj. snd (residue squares group' lang sT gT obj)) (filter ?P ?items)
           = enriched squares group' lang sT gT hs rows"
    unfolding enriched_def map_filter_enrich [symmetric] by (simp add: o_def)
  show ?thesis unfolding 2 using 1 r by (simp only: m simp_thms)
qed






lemma enriched_mem:
  "kvs \<in> set (enriched squares group' lang sT gT hs rows) \<longleftrightarrow>
   (\<exists>row\<in>set rows. map_option snd (enrich squares group' lang sT gT (objectOf hs row)) = Some kvs)"
  by (force simp: enriched_def map_filter_set image_iff)

lemma depthSelectorHelper_result:
  assumes "readStrs h array = Some xs" and "count_list xs e = 1"
  shows "depthSelectorHelper d h array (PS e)
     = (Inr (Ref (length h)),
        h @ Arr (map (\<lambda>j. Ref (Suc (length h) + j))
                   [0..<length (map Str (e # filter (\<lambda>x. x \<noteq> e) xs))])
          # map (\<lambda>s. Obj True [(label d (toString s), Prim s)])
              (map Str (e # filter (\<lambda>x. x \<noteq> e) xs)))"
proof -
  let ?n = "length h"
  let ?ys = "e # filter (\<lambda>x. x \<noteq> e) xs"
  from assms(2) have mem: "e \<in> set xs" using count_list_0_iff [of xs e] by auto
  from assms(1) have a: "arrayOf h array = Inr (map PS xs)" by (rule readStrs_arrayOf)
  have s: "slice0 h array = Inr (Ref ?n, h @ [Arr (map PS xs)])"
    using a by (simp add: slice0_def alloc_def)
  have i: "indexOfH (h @ [Arr (map PS xs)]) (Ref ?n) (PS e) = Inr (indexOf xs e)"
    by (simp add: indexOfH_def indexOf_map [OF inj_PS])
  have "splice (map PS xs) (indexOf xs e) 1 [] = map PS (remove1 e xs)"
    using splice_indexOf [of "PS e" "map PS xs"] mem indexOf_map [OF inj_PS, of xs e]
    by (simp add: remove1_map_inj [OF inj_PS])
  then have s1: "spliceH (h @ [Arr (map PS xs)]) (Ref ?n) (indexOf xs e) 1 []
      = Inr (h @ [Arr (map PS (filter (\<lambda>x. x \<noteq> e) xs))])"
    by (simp add: spliceH_def remove1_once [OF assms(2)])
  have s2: "spliceH (h @ [Arr (map PS (filter (\<lambda>x. x \<noteq> e) xs))]) (Ref ?n) 0 0 [PS e]
      = Inr (h @ [Arr (map Prim (map Str ?ys))])"
    by (simp add: spliceH_def splice_front o_def)
  have s3: "arrayOf (h @ [Arr (map Prim (map Str ?ys))]) (Ref ?n) = Inr (map Prim (map Str ?ys))"
    by simp
  from wrapEach_result [of d h "[]" "map Str ?ys" "[]"]
  have w: "wrapEach d (h @ [Arr (map Prim (map Str ?ys))]) (Ref ?n) 0 (map Prim (map Str ?ys))
     = (None, h @ Arr (map (\<lambda>j. Ref (Suc ?n + j)) [0..<length (map Str ?ys)])
             # map (\<lambda>s. Obj True [(label d (toString s), Prim s)]) (map Str ?ys))"
    by simp
  show ?thesis
    unfolding depthSelectorHelper_def s i s1 s2 s3 w sum.case prod.case option.case ..
qed

lemma filter_other_mset:
  assumes "count_list xs e = 1"
  shows "mset (e # filter (\<lambda>x. x \<noteq> e) xs) = mset xs"
proof -
  from assms have mem: "e \<in> set xs" using count_list_0_iff [of xs e] by auto
  have "mset (e # remove1 e xs) = mset xs" using mem by simp
  then show ?thesis by (simp only: remove1_once [OF assms])
qed

section \<open>The claims\<close>

text \<open>
  C8: the page attributes give exactly three locators, under the address of
  the service: the metadata of the squares level, the metadata of the group
  level, where the group \<open>section\<close> is named \<open>product_section\<close> and every other
  group by itself, and the dataset \<open>dataset/year/squares/group?filters\<close>.
\<close>

theorem urls_three_locators:
  "length (urls a) = 3
   \<and> urls a ! 0 = api @ ''metadata/'' @ attr_squares a
   \<and> (attr_group a = ''section'' \<longrightarrow> urls a ! 1 = api @ ''metadata/product_section'')
   \<and> (attr_group a \<noteq> ''section'' \<longrightarrow> urls a ! 1 = api @ ''metadata/'' @ attr_group a)
   \<and> urls a ! 2 = api @ attr_dataset a @ ''/year/'' @ attr_squares a @ ''/'' @ attr_group a
                     @ ''?'' @ attr_filters a"
  by (simp add: urls_def)

theorem urls_three_locators_witness:
  "urls \<lparr>attr_squares = ''state'', attr_group = ''section'', attr_dataset = ''secex'',
         attr_filters = ''year=2014''\<rparr>
     = [''http://api.staging.dataviva.info/metadata/state'',
        ''http://api.staging.dataviva.info/metadata/product_section'',
        ''http://api.staging.dataviva.info/secex/year/state/section?year=2014'']
   \<and> urls \<lparr>attr_squares = ''state'', attr_group = ''hs'', attr_dataset = ''secex'',
           attr_filters = ''''\<rparr> ! 1 = ''http://api.staging.dataviva.info/metadata/hs''"
  using urls_three_locators [of "\<lparr>attr_squares = ''state'', attr_group = ''section'',
      attr_dataset = ''secex'', attr_filters = ''year=2014''\<rparr>"]
    urls_three_locators [of "\<lparr>attr_squares = ''state'', attr_group = ''hs'',
      attr_dataset = ''secex'', attr_filters = ''''\<rparr>"]
  by (simp add: urls_def api_def)

text \<open>
  C6: the text formatting rule gives the localized label of \<open>value\<close> and of
  \<open>share\<close>, and gives every other text back unchanged.
\<close>

theorem format_text_rule:
  "format_text dictionary (Str ''value'') = dictGet dictionary ''value''
   \<and> format_text dictionary (Str ''share'') = dictGet dictionary ''share''
   \<and> (text \<noteq> Str ''value'' \<and> text \<noteq> Str ''share'' \<longrightarrow> format_text dictionary text = text)"
  by (cases "text") (simp_all add: format_text_def)

theorem format_text_rule_witness:
  "format_text [''value'' \<mapsto> ''Valor''] (Str ''value'') = Str ''Valor''
   \<and> format_text [''value'' \<mapsto> ''Valor''] (Str ''share'') = Undefined
   \<and> format_text [''value'' \<mapsto> ''Valor''] (Str ''year'') = Str ''year''"
  using format_text_rule [of "[''value'' \<mapsto> ''Valor'']" "Str ''year''"]
  by (simp add: dictGet_def)

text \<open>
  C2: for a depth chain of strings in which the current level occurs exactly
  once, the helper returns a new array of one object per level: the current
  level first, then the other levels in their order, each object the single
  entry from the label of the level to the level. The levels returned are a
  permutation of the chain.
\<close>

theorem depthSelectorHelper_moves_current_level:
  assumes "readStrs h array = Some depths" and "count_list depths currentLevel = 1"
  shows "fst (depthSelectorHelper dictionary h array (PS currentLevel)) = Inr (Ref (length h))
   \<and> readRecords (snd (depthSelectorHelper dictionary h array (PS currentLevel))) (Ref (length h))
       = Some (map (\<lambda>level. [(label dictionary level, Str level)])
                 (currentLevel # filter (\<lambda>level. level \<noteq> currentLevel) depths))
   \<and> mset (currentLevel # filter (\<lambda>level. level \<noteq> currentLevel) depths) = mset depths"
proof -
  let ?ys = "currentLevel # filter (\<lambda>level. level \<noteq> currentLevel) depths"
  note r = depthSelectorHelper_result [OF assms, of dictionary]
  note w = readRecords_wrapped [of h "map Str ?ys" dictionary]
  have "readRecords (snd (depthSelectorHelper dictionary h array (PS currentLevel))) (Ref (length h))
        = Some (map (\<lambda>s. [(label dictionary (toString s), s)]) (map Str ?ys))"
    unfolding r snd_conv by (rule w)
  then show ?thesis
    using filter_other_mset [OF assms(2)] by (simp add: r o_def)
qed

theorem depthSelectorHelper_moves_current_level_witness:
  "readStrs depthsHeap (Ref 0) = Some [''state'', ''municipality'', ''section'']
   \<and> count_list [''state'', ''municipality'', ''section''] ''municipality'' = 1
   \<and> readRecords
        (snd (depthSelectorHelper (withLevels ''en'' Map.empty) depthsHeap (Ref 0)
                (PS ''municipality''))) (Ref 1)
      = Some [[(''Municipality'', Str ''municipality'')], [(''State'', Str ''state'')],
              [(''undefined'', Str ''section'')]]"
proof -
  have a: "readStrs depthsHeap (Ref 0) = Some [''state'', ''municipality'', ''section'']"
    by code_simp
  have c: "count_list [''state'', ''municipality'', ''section''] ''municipality'' = 1"
    by simp
  have l: "length depthsHeap = 1" by (simp add: depthsHeap_def)
  from depthSelectorHelper_moves_current_level [OF a c, of "withLevels ''en'' Map.empty"] a c
  show ?thesis by (simp add: l label_def dictGet_def withLevels_def)
qed

text \<open>
  C3: a current level that is absent from the depth chain. The call returns
  normally; the array returned has lost the last level of the chain and has
  gained the absent level in front.
\<close>

theorem depthSelectorHelper_absent_level:
  "readStrs depthsHeap (Ref 0) = Some [''state'', ''municipality'', ''section'']
   \<and> fst (depthSelectorHelper (withLevels ''en'' Map.empty) depthsHeap (Ref 0) (PS ''country''))
      = Inr (Ref 1)
   \<and> readRecords
        (snd (depthSelectorHelper (withLevels ''en'' Map.empty) depthsHeap (Ref 0)
                (PS ''country''))) (Ref 1)
      = Some [[(''undefined'', Str ''country'')], [(''State'', Str ''state'')],
              [(''Municipality'', Str ''municipality'')]]"
  by code_simp

text \<open>
  C9: the helper leaves every array and object of the store it is called in
  as it was, the depth chain it is given among them: it writes to the copy it
  makes and to the objects it makes, whatever the arguments and the outcome.
\<close>

theorem depthSelectorHelper_frame:
  "take (length h) (snd (depthSelectorHelper dictionary h array element)) = h
   \<and> arrayOf (snd (depthSelectorHelper dictionary h array element)) array = arrayOf h array"
proof -
  let ?h' = "snd (depthSelectorHelper dictionary h array element)"
  have t: "take (length h) ?h' = h" by (rule depthSelectorHelper_keeps)
  have "arrayOf ?h' array = arrayOf h array"
  proof (cases array)
    case (Prim s)
    then show ?thesis by simp
  next
    case (Inherited b)
    then show ?thesis by simp
  next
    case (Ref a)
    show ?thesis
    proof (cases "a < length h")
      case True
      with take_heap [OF t] Ref show ?thesis by simp
    next
      case False
      with Ref show ?thesis by (simp add: depthSelectorHelper_def slice0_def)
    qed
  qed
  with t show ?thesis by simp
qed

text \<open>
  C7: \<^verbatim>\<open>buildData\<close> leaves every array and object of the store it is called
  in as it was, the observation table and the two lookup tables among them,
  whatever the arguments and the outcome: it writes to the array it makes and
  to the objects it makes.
\<close>

theorem buildData_frame:
  "take (length h)
     (snd (buildData squares group' lang h responseApi squaresMetadata groupMetadata)) = h"
  by (rule buildData_keeps)










text \<open>
  C10, as the code has it, in three calls that return. First, a header
  \<open>__proto__\<close> gives no key: the assignment of its cell goes to the inherited
  setter. Second and third, an entity column or a grouping column that is not
  a header is read as \<^verbatim>\<open>undefined\<close>, and the name found under \<open>undefined\<close> is
  stored under it: a key that is no header and is not \<open>icon\<close>.
\<close>

theorem buildData_keys_not_the_headers:
  "(readTable protoHeaderStore (Ref 0)
        = Some ([''__proto__'', ''state'', ''hs''], [[Str ''x'', Str ''SP'', Str ''01'']])
    \<and> readLookup protoHeaderStore (Ref 4)
        = Some [(''SP'', [(''name_en'', Str ''Sao Paulo'')])]
    \<and> readLookup protoHeaderStore (Ref 6)
        = Some [(''01'', [(''name_en'', Str ''Animals'')])]
    \<and> fst (buildData ''state'' ''hs'' ''en'' protoHeaderStore (Ref 0) (Ref 4) (Ref 6))
        = Inr (Ref 8)
    \<and> readRecords
         (snd (buildData ''state'' ''hs'' ''en'' protoHeaderStore (Ref 0) (Ref 4) (Ref 6)))
         (Ref 8)
        = Some [[(''state'', Str ''Sao Paulo''), (''hs'', Str ''Animals'')]])
   \<and> (readTable undefinedEntityStore (Ref 0)
        = Some ([''state'', ''hs''], [[Str ''SP'', Str ''01'']])
    \<and> readLookup undefinedEntityStore (Ref 4)
        = Some [(''undefined'', [(''name_en'', Str ''Nowhere'')])]
    \<and> readLookup undefinedEntityStore (Ref 6)
        = Some [(''01'', [(''name_en'', Str ''Animals'')])]
    \<and> fst (buildData ''country'' ''hs'' ''en'' undefinedEntityStore (Ref 0) (Ref 4) (Ref 6))
        = Inr (Ref 8)
    \<and> readRecords
         (snd (buildData ''country'' ''hs'' ''en'' undefinedEntityStore (Ref 0) (Ref 4) (Ref 6)))
         (Ref 8)
        = Some [[(''state'', Str ''SP''), (''hs'', Str ''Animals''), (''country'', Str ''Nowhere'')]])
   \<and> (readTable undefinedGroupStore (Ref 0)
        = Some ([''state'', ''hs''], [[Str ''SP'', Str ''01'']])
    \<and> readLookup undefinedGroupStore (Ref 4)
        = Some [(''SP'', [(''name_en'', Str ''Sao Paulo'')])]
    \<and> readLookup undefinedGroupStore (Ref 6)
        = Some [(''undefined'', [(''name_en'', Str ''Nothing'')])]
    \<and> fst (buildData ''state'' ''product'' ''en'' undefinedGroupStore (Ref 0) (Ref 4) (Ref 6))
        = Inr (Ref 8)
    \<and> readRecords
         (snd (buildData ''state'' ''product'' ''en'' undefinedGroupStore (Ref 0) (Ref 4) (Ref 6)))
         (Ref 8)
        = Some [[(''state'', Str ''Sao Paulo''), (''hs'', Str ''01''), (''product'', Str ''Nothing'')]])"
  by code_simp

text \<open>
  C10, amended: for a table without a header \<open>__proto__\<close> that has the entity
  column and the grouping column, the keys of every record returned are the
  headers of the table, and the key \<open>icon\<close> besides exactly when the grouping
  column is \<open>section\<close>.
\<close>

theorem buildData_keys:
  assumes "readTable h responseApi = Some (hs, rows)"
    and "readLookup h squaresMetadata = Some sT" "readLookup h groupMetadata = Some gT"
    and "''__proto__'' \<notin> set hs" "squares \<in> set hs" "group' \<in> set hs"
  shows "fst (buildData squares group' lang h responseApi squaresMetadata groupMetadata)
           = Inr (Ref (length h))
    \<and> readRecords (snd (buildData squares group' lang h responseApi squaresMetadata groupMetadata))
         (Ref (length h))
       = Some (enriched squares group' lang sT gT hs rows)
    \<and> (\<forall>kvs\<in>set (enriched squares group' lang sT gT hs rows).
          fst ` set kvs = set hs \<union> (if group' = ''section'' then {''icon''} else {}))"
proof -
  have p: "squares \<noteq> ''__proto__''" "group' \<noteq> ''__proto__''" using assms(4-6) by auto
  have r: "\<forall>row\<in>set rows. \<not> stops squares group' lang sT (objectOf hs row)"
    using own_columns_read [of squares "objectOf hs _" group' lang sT]
      keys_objectOf [OF assms(4)] assms(5,6)
    by simp
  have "fst ` set kvs = set hs \<union> (if group' = ''section'' then {''icon''} else {})"
    if "kvs \<in> set (enriched squares group' lang sT gT hs rows)" for kvs
  proof -
    from that obtain row obj' where
      e: "enrich squares group' lang sT gT (objectOf hs row) = Some obj'" and k: "kvs = snd obj'"
      by (auto simp: enriched_mem)
    from keys_enrich [OF e p] assms(5,6) keys_objectOf [OF assms(4), of row]
    show ?thesis by (auto simp: k)
  qed
  with buildData_records [OF assms(1-3) r] show ?thesis by blast
qed

theorem buildData_keys_witness:
  "readTable exampleHeap (Ref 0) = Some (exampleHeaders, exampleRows)
   \<and> readLookup exampleHeap (Ref 6) = Some exampleSquares
   \<and> readLookup exampleHeap (Ref 9) = Some exampleGroups
   \<and> ''__proto__'' \<notin> set exampleHeaders
   \<and> ''state'' \<in> set exampleHeaders \<and> ''section'' \<in> set exampleHeaders
   \<and> readRecords (snd (buildData ''state'' ''section'' ''en'' exampleHeap (Ref 0) (Ref 6) (Ref 9)))
        (Ref 11) = Some [exampleRecord]
   \<and> fst ` set exampleRecord = set exampleHeaders \<union> {''icon''}"
proof -
  have t: "readTable exampleHeap (Ref 0) = Some (exampleHeaders, exampleRows)" by code_simp
  have l1: "readLookup exampleHeap (Ref 6) = Some exampleSquares" by code_simp
  have l2: "readLookup exampleHeap (Ref 9) = Some exampleGroups" by code_simp
  have m: "''__proto__'' \<notin> set exampleHeaders"
    "''state'' \<in> set exampleHeaders" "''section'' \<in> set exampleHeaders"
    by (simp_all add: exampleHeaders_def)
  have n: "length exampleHeap = 11" by (simp add: exampleHeap_def)
  have e: "enriched ''state'' ''section'' ''en'' exampleSquares exampleGroups exampleHeaders
             exampleRows = [exampleRecord]"
    by code_simp
  from buildData_keys [OF t l1 l2 m, where lang = "''en''"]
  show ?thesis unfolding n e using t l1 l2 m by simp
qed

end
